theory Spec2Isabelle
  imports Complex_Main "HOL-Library.Char_ord" "HOL-Library.List_Lexorder"
    "HOL-Library.Multiset" "HOL-Library.Signed_Division" "HOL-Library.Sublist"
    "HOL-Library.Word"
begin

section \<open>Png2Svg: the colour pipeline of \<^verbatim>\<open>vectorizer.cpp\<close>\<close>

text \<open>
  The development follows \<^verbatim>\<open>src/cpp/src/vectorizer.cpp\<close>. A \<^verbatim>\<open>std::string\<close> is a
  \<^typ>\<open>string\<close> (a list of 8-bit characters) and a C \<^verbatim>\<open>int\<close> is an \<^typ>\<open>int\<close>: the
  channel values, indices and counts that occur stay far inside the 32-bit range for
  every image that fits in memory. An exception or an undefined read is a value of
  \<open>error\<close>, and a function that can raise one returns a sum.
\<close>

subsection \<open>Errors\<close>

datatype error =
    InvalidArgument   \<comment> \<open>\<^verbatim>\<open>std::invalid_argument\<close> thrown by \<^verbatim>\<open>std::stoi\<close>/\<^verbatim>\<open>std::stof\<close>\<close>
  | OutOfRange        \<comment> \<open>\<^verbatim>\<open>std::out_of_range\<close> thrown by \<^verbatim>\<open>substr\<close>, \<^verbatim>\<open>stoi\<close>, \<^verbatim>\<open>stof\<close>\<close>
  | Undefined         \<comment> \<open>undefined behaviour: unchecked index, float-to-int cast out of range\<close>

subsection \<open>Characters and the C library calls on them\<close>

definition isspace :: "char \<Rightarrow> bool" where
  "isspace c \<longleftrightarrow> c \<in> {CHR '' '', CHR 0x09, CHR 0x0A, CHR 0x0B, CHR 0x0C, CHR 0x0D}"

definition isdigit :: "char \<Rightarrow> bool" where
  "isdigit c \<longleftrightarrow> c \<in> set ''0123456789''"

definition isxdigit :: "char \<Rightarrow> bool" where
  "isxdigit c \<longleftrightarrow> c \<in> set ''0123456789abcdefABCDEF''"

definition xdigit_val :: "char \<Rightarrow> int" where
  "xdigit_val c =
     (let n = (of_char c :: nat) in
      if 48 \<le> n \<and> n \<le> 57 then int n - 48
      else if 97 \<le> n \<and> n \<le> 102 then int n - 87
      else int n - 55)"

definition hex_value :: "string \<Rightarrow> int" where
  "hex_value ds = foldl (\<lambda>acc c. 16 * acc + xdigit_val c) 0 ds"

text \<open>
  \<^verbatim>\<open>std::stoi(s, nullptr, 16)\<close>: \<^verbatim>\<open>strtol\<close> skips white space, reads an optional sign and
  an optional \<^verbatim>\<open>0x\<close> that a hex digit follows, then the longest run of hex digits; what
  follows the run is ignored. No digit at all is \<^verbatim>\<open>std::invalid_argument\<close>, a value
  outside \<^verbatim>\<open>int\<close> is \<^verbatim>\<open>std::out_of_range\<close>.
\<close>

definition stoi16 :: "string \<Rightarrow> error + int" where
  "stoi16 s =
     (let s1 = dropWhile isspace s;
          neg = (case s1 of c # _ \<Rightarrow> c = CHR ''-'' | [] \<Rightarrow> False);
          s2 = (case s1 of c # r \<Rightarrow> if c = CHR ''-'' \<or> c = CHR ''+'' then r else s1 | [] \<Rightarrow> s1);
          s3 = (case s2 of z # x # h # r \<Rightarrow>
                  if z = CHR ''0'' \<and> (x = CHR ''x'' \<or> x = CHR ''X'') \<and> isxdigit h then h # r else s2
                | _ \<Rightarrow> s2);
          ds = takeWhile isxdigit s3;
          v = (if neg then - hex_value ds else hex_value ds)
      in if ds = [] then Inl InvalidArgument
         else if v < - (2 ^ 31) \<or> 2 ^ 31 - 1 < v then Inl OutOfRange
         else Inr v)"

text \<open>\<^verbatim>\<open>std::string::substr(pos, n)\<close> throws when \<open>pos\<close> is beyond the end.\<close>

definition substr :: "string \<Rightarrow> nat \<Rightarrow> nat \<Rightarrow> error + string" where
  "substr s pos n = (if length s < pos then Inl OutOfRange else Inr (take n (drop pos s)))"

definition stoi_substr :: "string \<Rightarrow> nat \<Rightarrow> error + int" where
  "stoi_substr hex pos = (case substr hex pos 2 of Inl e \<Rightarrow> Inl e | Inr f \<Rightarrow> stoi16 f)"

subsection \<open>ColorMath: \<^verbatim>\<open>hexToRgb\<close> and \<^verbatim>\<open>rgbToHex\<close>\<close>

definition strip_hash :: "string \<Rightarrow> string" where
  "strip_hash hexColor =
     (case hexColor of c # r \<Rightarrow> if c = CHR ''#'' then r else hexColor | [] \<Rightarrow> hexColor)"

definition expand3 :: "string \<Rightarrow> string" where
  "expand3 hex = (if length hex = 3 then concat (map (\<lambda>c. [c, c]) hex) else hex)"

definition hexToRgb :: "string \<Rightarrow> error + (int \<times> int \<times> int)" where
  "hexToRgb hexColor =
     (let hex = expand3 (strip_hash hexColor) in
      case stoi_substr hex 0 of Inl e \<Rightarrow> Inl e | Inr r \<Rightarrow>
      case stoi_substr hex 2 of Inl e \<Rightarrow> Inl e | Inr g \<Rightarrow>
      case stoi_substr hex 4 of Inl e \<Rightarrow> Inl e | Inr b \<Rightarrow>
      Inr (r, g, b))"

definition hexdigit :: "nat \<Rightarrow> char" where
  "hexdigit d = ''0123456789abcdef'' ! (d mod 16)"

text \<open>The digits \<^verbatim>\<open>%x\<close> prints for an unsigned value.\<close>

function to_hex :: "nat \<Rightarrow> string" where
  "to_hex n = (if n < 16 then [hexdigit n] else to_hex (n div 16) @ [hexdigit (n mod 16)])"
  by pat_completeness auto
termination
  by (relation "measure id") auto

declare to_hex.simps [simp del]

text \<open>\<^verbatim>\<open>%02x\<close> of an \<^verbatim>\<open>int\<close>: the value is read as \<^verbatim>\<open>unsigned int\<close>, padded to two digits.\<close>

definition fmt_02x :: "int \<Rightarrow> string" where
  "fmt_02x v = (let ds = to_hex (nat (v mod 2 ^ 32)) in replicate (2 - length ds) (CHR ''0'') @ ds)"

text \<open>\<^verbatim>\<open>snprintf(buffer, 8, "#%02x%02x%02x", r, g, b)\<close> keeps at most seven characters.\<close>

definition rgbToHex :: "int \<Rightarrow> int \<Rightarrow> int \<Rightarrow> string" where
  "rgbToHex r g b = take 7 (CHR ''#'' # fmt_02x r @ fmt_02x g @ fmt_02x b)"


text \<open>The characters with which \<^verbatim>\<open>strtol\<close> can begin to read a base-16 number.\<close>

definition starts_number :: "char \<Rightarrow> bool" where
  "starts_number c \<longleftrightarrow> isxdigit c \<or> isspace c \<or> c = CHR ''-'' \<or> c = CHR ''+''"

text \<open>
  The fields of at most two characters from which \<^verbatim>\<open>strtol\<close> reads a base-16 number: a
  hex digit first, or a white-space or sign character and then a hex digit.
\<close>

definition reads_number :: "string \<Rightarrow> bool" where
  "reads_number f =
     (case f of
        [] \<Rightarrow> False
      | c # r \<Rightarrow>
          isxdigit c \<or>
          ((isspace c \<or> c = CHR ''-'' \<or> c = CHR ''+'') \<and>
           (case r of [] \<Rightarrow> False | d # _ \<Rightarrow> isxdigit d)))"

subsection \<open>Text rewriting: \<^verbatim>\<open>std::regex_replace\<close> and the \<^verbatim>\<open>find\<close>/\<^verbatim>\<open>replace\<close> loop\<close>

text \<open>
  \<^verbatim>\<open>std::regex_replace(s, std::regex(pat), rep)\<close> for a pattern without metacharacters, and
  the loop \<^verbatim>\<open>while ((pos = result.find(pat, pos)) != npos) { result.replace(pos, pat.length(), rep);
  pos += rep.length(); }\<close>: both scan from the left, replace each occurrence found and go on
  after it, so the replacement text is never scanned again. The code calls neither with an
  empty pattern.
\<close>


function replace_all :: "string \<Rightarrow> string \<Rightarrow> string \<Rightarrow> string" where
  "replace_all pat rep s =
     (if pat = [] then s
      else if prefix pat s then rep @ replace_all pat rep (drop (length pat) s)
      else (case s of [] \<Rightarrow> [] | c # cs \<Rightarrow> c # replace_all pat rep cs))"
  by pat_completeness auto
termination
proof (relation "measure (\<lambda>(pat, rep, s). length s)")
  fix pat rep s :: string
  assume "pat \<noteq> []" "prefix pat s"
  then have "s \<noteq> []" by auto
  with \<open>pat \<noteq> []\<close> show "((pat, rep, drop (length pat) s), (pat, rep, s)) \<in> measure (\<lambda>(pat, rep, s). length s)"
    by simp
qed auto

declare replace_all.simps [simp del]

text \<open>\<^verbatim>\<open>std::regex_replace(s, std::regex("\\s+"), " ")\<close>: every maximal run of white space
  becomes one space.\<close>

function collapse_ws :: "string \<Rightarrow> string" where
  "collapse_ws [] = []"
| "collapse_ws (c # cs) =
     (if isspace c then CHR '' '' # collapse_ws (dropWhile isspace cs) else c # collapse_ws cs)"
  by pat_completeness auto
termination
  by (relation "measure length") (auto simp: less_Suc_eq_le length_dropWhile_le)

subsection \<open>SvgNormalizer: \<^verbatim>\<open>optimizeSvg\<close>\<close>

definition optimizeSvg :: "string \<Rightarrow> string" where
  "optimizeSvg svgContent = replace_all ''> <'' ''><'' (collapse_ws svgContent)"




subsection \<open>ColorMapper: \<^verbatim>\<open>findNearestColor\<close>\<close>

text \<open>
  The distances are \<^verbatim>\<open>double\<close>s in the source; they are modelled as reals. Every distance
  the loop computes is the square root of an integer below \<open>10\<^sup>6\<close> (the channels
  \<^verbatim>\<open>hexToRgb\<close> returns lie in \<open>[-255, 255]\<close>), where the correctly rounded \<^verbatim>\<open>double\<close>
  square roots are ordered as the exact ones, so that each comparison
  \<^verbatim>\<open>dist < minDistance\<close> has the same outcome. \<open>DBL_MAX\<close> is
  \<^verbatim>\<open>std::numeric_limits<double>::max()\<close>. Reading \<^verbatim>\<open>colorList[0]\<close> of an empty vector is
  undefined.
\<close>

definition DBL_MAX :: real where
  "DBL_MAX = (2 ^ 53 - 1) * 2 ^ 971"

definition distance :: "int \<times> int \<times> int \<Rightarrow> int \<times> int \<times> int \<Rightarrow> real" where
  "distance targetRgb cRgb =
     (case (targetRgb, cRgb) of ((r1, g1, b1), (r2, g2, b2)) \<Rightarrow>
        sqrt (real_of_int ((r1 - r2) ^ 2) + real_of_int ((g1 - g2) ^ 2) + real_of_int ((b1 - b2) ^ 2)))"

fun nearest_loop :: "int \<times> int \<times> int \<Rightarrow> string list \<Rightarrow> real \<Rightarrow> string \<Rightarrow> error + string" where
  "nearest_loop targetRgb [] minDistance nearest = Inr nearest"
| "nearest_loop targetRgb (c # cs) minDistance nearest =
     (case hexToRgb c of
        Inl e \<Rightarrow> Inl e
      | Inr cRgb \<Rightarrow>
          (let dist = distance targetRgb cRgb in
           if dist < minDistance then nearest_loop targetRgb cs dist c
           else nearest_loop targetRgb cs minDistance nearest))"

definition findNearestColor :: "string \<Rightarrow> string list \<Rightarrow> error + string" where
  "findNearestColor color colorList =
     (case hexToRgb color of
        Inl e \<Rightarrow> Inl e
      | Inr targetRgb \<Rightarrow>
          (case colorList of
             [] \<Rightarrow> Inl Undefined
           | c0 # _ \<Rightarrow> nearest_loop targetRgb colorList DBL_MAX c0))"

text \<open>The squared Euclidean distance in RGB space between two colour strings.\<close>

definition sq_dist :: "string \<Rightarrow> string \<Rightarrow> int" where
  "sq_dist a b =
     (case (hexToRgb a, hexToRgb b) of
        (Inr (r1, g1, b1), Inr (r2, g2, b2)) \<Rightarrow> (r1 - r2) ^ 2 + (g1 - g2) ^ 2 + (b1 - b2) ^ 2
      | _ \<Rightarrow> 0)"



subsection \<open>PixelStore: \<^verbatim>\<open>PixelData\<close>\<close>

text \<open>
  \<^verbatim>\<open>struct PixelData\<close> of \<^verbatim>\<open>vectorizer.h\<close>: \<^verbatim>\<open>pixels\<close> is height by width by channels,
  each sample a \<^verbatim>\<open>uint8_t\<close>. \<^verbatim>\<open>std::vector::operator[]\<close> does not check its index: a read
  outside the vector is undefined behaviour.
\<close>

record PixelData =
  pixels :: "8 word list list list"
  width :: int
  height :: int
  channels :: int
  mode :: string

definition vec_at :: "'a list \<Rightarrow> int \<Rightarrow> error + 'a" where
  "vec_at xs i = (if 0 \<le> i \<and> i < int (length xs) then Inr (xs ! nat i) else Inl Undefined)"

definition pixel :: "PixelData \<Rightarrow> int \<Rightarrow> int \<Rightarrow> int \<Rightarrow> error + 8 word" where
  "pixel data y x c =
     (case vec_at (pixels data) y of Inl e \<Rightarrow> Inl e | Inr row \<Rightarrow>
      case vec_at row x of Inl e \<Rightarrow> Inl e | Inr px \<Rightarrow> vec_at px c)"

subsection \<open>DominantColorExtractor: \<^verbatim>\<open>extractDominantColors\<close>\<close>

text \<open>
  \<^verbatim>\<open>std::map<std::string, int> colorCount\<close> is the list of its entries in ascending key
  order, the order in which the map is iterated; \<open>map_incr\<close> is \<^verbatim>\<open>colorCount[color]++\<close>.
\<close>

type_synonym histogram = "(string \<times> int) list"

fun map_incr :: "string \<Rightarrow> histogram \<Rightarrow> histogram" where
  "map_incr k [] = [(k, 1)]"
| "map_incr k ((k', n) # m) =
     (if k = k' then (k', n + 1) # m
      else if k < k' then (k, 1) # (k', n) # m
      else (k', n) # map_incr k m)"

text \<open>\<^verbatim>\<open>(data.pixels[y][x][c] / 32) * 32\<close>, in \<^verbatim>\<open>int\<close> after integer promotion.\<close>

definition quantize :: "8 word \<Rightarrow> int" where
  "quantize p = (uint p sdiv 32) * 32"

definition count_pixel :: "PixelData \<Rightarrow> int \<Rightarrow> int \<Rightarrow> histogram \<Rightarrow> error + histogram" where
  "count_pixel data y x colorCount =
     (case pixel data y x 0 of Inl e \<Rightarrow> Inl e | Inr p0 \<Rightarrow>
      case pixel data y x 1 of Inl e \<Rightarrow> Inl e | Inr p1 \<Rightarrow>
      case pixel data y x 2 of Inl e \<Rightarrow> Inl e | Inr p2 \<Rightarrow>
      Inr (map_incr (rgbToHex (quantize p0) (quantize p1) (quantize p2)) colorCount))"

definition sample_pixel :: "PixelData \<Rightarrow> int \<Rightarrow> int \<Rightarrow> histogram \<Rightarrow> error + histogram" where
  "sample_pixel data y x colorCount =
     (if 3 \<le> channels data then
        (if channels data = 4 then
           (case pixel data y x 3 of
              Inl e \<Rightarrow> Inl e
            | Inr a \<Rightarrow> if a < 128 then Inr colorCount else count_pixel data y x colorCount)
         else count_pixel data y x colorCount)
      else Inr colorCount)"

text \<open>
  The values that the variable of \<^verbatim>\<open>for (int i = 0; i < n; i += stride)\<close> takes, and the
  loop over them, which stops at the first undefined read.
\<close>

function for_range :: "int \<Rightarrow> int \<Rightarrow> int \<Rightarrow> int list" where
  "for_range i n stride =
     (if i < n \<and> 0 < stride then i # for_range (i + stride) n stride else [])"
  by pat_completeness auto
termination
  by (relation "measure (\<lambda>(i, n, stride). nat (n - i))") auto

declare for_range.simps [simp del]

fun for_each :: "(int \<Rightarrow> 's \<Rightarrow> error + 's) \<Rightarrow> int list \<Rightarrow> 's \<Rightarrow> error + 's" where
  "for_each body [] s = Inr s"
| "for_each body (i # is) s = (case body i s of Inl e \<Rightarrow> Inl e | Inr s' \<Rightarrow> for_each body is s')"

definition sampleStep :: "PixelData \<Rightarrow> int" where
  "sampleStep data = max 1 (min (width data) (height data) sdiv 100)"

definition build_histogram :: "PixelData \<Rightarrow> error + histogram" where
  "build_histogram data =
     for_each (\<lambda>y. for_each (\<lambda>x. sample_pixel data y x) (for_range 0 (width data) (sampleStep data)))
       (for_range 0 (height data) (sampleStep data)) []"

text \<open>
  \<^verbatim>\<open>std::sort\<close> with the comparator \<^verbatim>\<open>a.second > b.second\<close>. The standard fixes the result of
  \<^verbatim>\<open>std::sort\<close> only up to the order of equivalent elements: it is a permutation of the
  input in which no element is followed by one that the comparator puts before it. The
  sort is therefore a parameter \<open>srt\<close> of the model, with this contract.
\<close>

definition by_count_desc :: "string \<times> int \<Rightarrow> string \<times> int \<Rightarrow> bool" where
  "by_count_desc a b \<longleftrightarrow> snd a > snd b"

definition std_sort_contract :: "('a \<Rightarrow> 'a \<Rightarrow> bool) \<Rightarrow> ('a list \<Rightarrow> 'a list) \<Rightarrow> bool" where
  "std_sort_contract lt srt \<longleftrightarrow>
     (\<forall>xs. mset (srt xs) = mset xs \<and> sorted_wrt (\<lambda>a b. \<not> lt b a) (srt xs))"

definition extractDominantColors ::
  "(histogram \<Rightarrow> histogram) \<Rightarrow> PixelData \<Rightarrow> int \<Rightarrow> error + string list" where
  "extractDominantColors srt data numColors =
     (case build_histogram data of
        Inl e \<Rightarrow> Inl e
      | Inr colorCount \<Rightarrow> Inr (map fst (take (nat numColors) (srt colorCount))))"

text \<open>
  One sort that meets the contract: the stable insertion sort, which is what the usual
  implementations of \<^verbatim>\<open>std::sort\<close> run on short ranges.
\<close>

definition stable_sort :: "histogram \<Rightarrow> histogram" where
  "stable_sort = sort_key (\<lambda>p. - snd p)"


text \<open>
  What the vector of \<^verbatim>\<open>getPixels\<close> satisfies: \<^verbatim>\<open>height\<close> rows of \<^verbatim>\<open>width\<close> pixels of
  \<^verbatim>\<open>channels\<close> samples each.
\<close>

definition wf_pixels :: "PixelData \<Rightarrow> bool" where
  "wf_pixels data \<longleftrightarrow>
     int (length (pixels data)) = height data \<and>
     (\<forall>row\<in>set (pixels data). int (length row) = width data \<and>
        (\<forall>px\<in>set row. int (length px) = channels data))"

text \<open>
  The words of the specification, section 4.4: the pixels examined are those whose two
  coordinates are multiples of the stride; a pixel of a four-channel buffer with alpha
  below 128 is skipped; the colour of a pixel is the hex string of its quantized channels;
  a buffer with fewer than three channels yields no colour.
\<close>

definition sample_points :: "PixelData \<Rightarrow> (int \<times> int) list" where
  "sample_points data =
     concat (map (\<lambda>y. map (\<lambda>x. (y, x)) (for_range 0 (width data) (sampleStep data)))
       (for_range 0 (height data) (sampleStep data)))"

definition sample_at :: "PixelData \<Rightarrow> int \<times> int \<Rightarrow> 8 word list" where
  "sample_at data p = pixels data ! nat (fst p) ! nat (snd p)"

definition opaque_at :: "PixelData \<Rightarrow> int \<times> int \<Rightarrow> bool" where
  "opaque_at data p \<longleftrightarrow> channels data \<noteq> 4 \<or> \<not> sample_at data p ! 3 < 128"

definition color_at :: "PixelData \<Rightarrow> int \<times> int \<Rightarrow> string" where
  "color_at data p =
     rgbToHex (quantize (sample_at data p ! 0)) (quantize (sample_at data p ! 1))
       (quantize (sample_at data p ! 2))"

definition sampled_colors :: "PixelData \<Rightarrow> string list" where
  "sampled_colors data =
     (if channels data < 3 then []
      else map (color_at data) (filter (opaque_at data) (sample_points data)))"

definition quantized_colors :: "PixelData \<Rightarrow> string set" where
  "quantized_colors data = set (sampled_colors data)"

definition frequency :: "PixelData \<Rightarrow> string \<Rightarrow> int" where
  "frequency data c = int (count_list (sampled_colors data) c)"

text \<open>
  The order the claim describes: the distinct colours in the order of their first
  encounter, sorted stably by descending frequency, the first \<open>N\<close> of them.
\<close>

definition first_encounter_order :: "PixelData \<Rightarrow> string list" where
  "first_encounter_order data = rev (remdups (rev (sampled_colors data)))"

definition spec_dominant_colors :: "PixelData \<Rightarrow> int \<Rightarrow> string list" where
  "spec_dominant_colors data numColors =
     take (nat numColors) (sort_key (\<lambda>c. - frequency data c) (first_encounter_order data))"

subsection \<open>InspectionHeuristic: \<^verbatim>\<open>inspectImage\<close>\<close>

text \<open>
  \<^verbatim>\<open>inspectImage\<close> loads the image with \<^verbatim>\<open>getPixels\<close>; the model starts from the
  \<^verbatim>\<open>PixelData\<close> it returns. \<open>drop_background\<close> is the block that tests the first colour
  and erases it, \<open>options_of_palette\<close> the rest of the function.
\<close>

record VectorizationOption =
  step :: int
  colors :: "string list"

definition near_white :: "int \<times> int \<times> int \<Rightarrow> bool" where
  "near_white rgb = (case rgb of (r, g, b) \<Rightarrow> 200 < r \<and> 200 < g \<and> 200 < b)"

definition near_black :: "int \<times> int \<times> int \<Rightarrow> bool" where
  "near_black rgb = (case rgb of (r, g, b) \<Rightarrow> r < 50 \<and> g < 50 \<and> b < 50)"

definition drop_background :: "string list \<Rightarrow> error + string list" where
  "drop_background palette =
     (case palette of
        [] \<Rightarrow> Inl Undefined
      | p0 # rest \<Rightarrow>
          (case hexToRgb p0 of
             Inl e \<Rightarrow> Inl e
           | Inr firstRgb \<Rightarrow>
               Inr (if near_white firstRgb \<and> 1 < length palette then rest else palette)))"

definition black_option :: VectorizationOption where
  "black_option = \<lparr>step = 1, colors = [''#000000'']\<rparr>"

definition options_of_palette :: "string list \<Rightarrow> error + VectorizationOption list" where
  "options_of_palette palette =
     (case (if palette \<noteq> [] then
              (case hexToRgb (last palette) of
                 Inl e \<Rightarrow> Inl e
               | Inr lastRgb \<Rightarrow> Inr (near_black lastRgb))
            else Inr False) of
        Inl e \<Rightarrow> Inl e
      | Inr isBlackAndWhite \<Rightarrow>
          Inr (if isBlackAndWhite then [black_option]
               else map (\<lambda>i. \<lparr>step = int i, colors = take i palette\<rparr>)
                      [1 ..< Suc (min 4 (length palette))]))"

definition inspectImage ::
  "(histogram \<Rightarrow> histogram) \<Rightarrow> PixelData \<Rightarrow> error + VectorizationOption list" where
  "inspectImage srt data =
     (case extractDominantColors srt data 5 of
        Inl e \<Rightarrow> Inl e
      | Inr palette \<Rightarrow>
          if palette = [] then Inr [black_option]
          else (case drop_background palette of
                  Inl e \<Rightarrow> Inl e
                | Inr working \<Rightarrow> options_of_palette working))"

subsection \<open>Single-precision arithmetic\<close>

text \<open>
  A \<^verbatim>\<open>float\<close> is taken to be an IEEE 754 binary32 number under round-to-nearest-even,
  every operation rounded to \<^verbatim>\<open>float\<close> on its own. A finite \<^verbatim>\<open>float\<close> is the rational it
  denotes; infinities and NaN are one value \<open>NonFinite\<close>, which no operation of this file
  turns back into a finite number (there is no division). The sign of zero is not kept:
  it does not influence any result below.

  \<open>binade x\<close> is the exponent \<open>e\<close> with \<open>2\<^sup>e \<le> \<bar>x\<bar> < 2\<^sup>e\<^sup>+\<^sup>1\<close>, kept within \<open>[-126, 127]\<close>;
  a binary32 number with that exponent is a multiple of \<open>2\<^sup>e\<^sup>-\<^sup>2\<^sup>3\<close>.
\<close>

function norm_up :: "int \<Rightarrow> rat \<Rightarrow> int" where
  "norm_up e a = (if a < 2 \<or> 127 \<le> e then e else norm_up (e + 1) (a / 2))"
  by pat_completeness auto
termination
  by (relation "measure (\<lambda>(e, a). nat (127 - e))") auto

function norm_down :: "int \<Rightarrow> rat \<Rightarrow> int" where
  "norm_down e a = (if 1 \<le> a \<or> e \<le> - 126 then e else norm_down (e - 1) (2 * a))"
  by pat_completeness auto
termination
  by (relation "measure (\<lambda>(e, a). nat (e + 126))") auto

declare norm_up.simps [simp del] norm_down.simps [simp del]

definition binade :: "rat \<Rightarrow> int" where
  "binade x = (if 1 \<le> \<bar>x\<bar> then norm_up 0 \<bar>x\<bar> else norm_down 0 \<bar>x\<bar>)"

definition round_half_even :: "rat \<Rightarrow> int" where
  "round_half_even q =
     (let f = \<lfloor>q\<rfloor>; r = q - of_int f in
      if r < 1 / 2 then f else if 1 / 2 < r then f + 1 else if even f then f else f + 1)"

definition round32 :: "rat \<Rightarrow> rat" where
  "round32 x = (let u = 2 powi (binade x - 23) in of_int (round_half_even (x / u)) * u)"

datatype float32 = Finite rat | NonFinite

text \<open>A result that rounds to \<open>2\<^sup>1\<^sup>2\<^sup>8\<close> or beyond overflows to an infinity.\<close>

definition to_float :: "rat \<Rightarrow> float32" where
  "to_float x = (let y = round32 x in if \<bar>y\<bar> < 2 ^ 128 then Finite y else NonFinite)"

fun fsub :: "float32 \<Rightarrow> float32 \<Rightarrow> float32" where
  "fsub (Finite x) (Finite y) = to_float (x - y)"
| "fsub _ _ = NonFinite"

fun fadd :: "float32 \<Rightarrow> float32 \<Rightarrow> float32" where
  "fadd (Finite x) (Finite y) = to_float (x + y)"
| "fadd _ _ = NonFinite"

fun fmul :: "float32 \<Rightarrow> float32 \<Rightarrow> float32" where
  "fmul (Finite x) (Finite y) = to_float (x * y)"
| "fmul _ _ = NonFinite"

text \<open>The conversion of an \<^verbatim>\<open>int\<close> operand to \<^verbatim>\<open>float\<close>.\<close>

definition float_of_int :: "int \<Rightarrow> float32" where
  "float_of_int i = to_float (of_int i)"

text \<open>
  \<^verbatim>\<open>static_cast<int>\<close> truncates towards zero; the behaviour is undefined when the truncated
  value is not an \<^verbatim>\<open>int\<close>.
\<close>

definition int_of_float :: "float32 \<Rightarrow> error + int" where
  "int_of_float f =
     (case f of
        NonFinite \<Rightarrow> Inl Undefined
      | Finite x \<Rightarrow>
          (let t = (if 0 \<le> x then \<lfloor>x\<rfloor> else \<lceil>x\<rceil>) in
           if - (2 ^ 31) \<le> t \<and> t < 2 ^ 31 then Inr t else Inl Undefined))"

subsection \<open>ColorMath: \<^verbatim>\<open>combineOpacity\<close> and \<^verbatim>\<open>rgbaToHex\<close>\<close>

definition combineOpacity :: "float32 \<Rightarrow> float32 \<Rightarrow> float32" where
  "combineOpacity a b =
     fsub (float_of_int 1) (fmul (fsub (float_of_int 1) a) (fsub (float_of_int 1) b))"

text \<open>\<^verbatim>\<open>static_cast<int>(a * ch + (1 - a) * 255)\<close> for one channel.\<close>

definition blend_white :: "int \<Rightarrow> float32 \<Rightarrow> error + int" where
  "blend_white ch a =
     int_of_float
       (fadd (fmul a (float_of_int ch)) (fmul (fsub (float_of_int 1) a) (float_of_int 255)))"

definition rgbaToHex :: "int \<Rightarrow> int \<Rightarrow> int \<Rightarrow> float32 \<Rightarrow> error + string" where
  "rgbaToHex r g b a =
     (case blend_white r a of Inl e \<Rightarrow> Inl e | Inr r' \<Rightarrow>
      case blend_white g a of Inl e \<Rightarrow> Inl e | Inr g' \<Rightarrow>
      case blend_white b a of Inl e \<Rightarrow> Inl e | Inr b' \<Rightarrow>
      Inr (rgbToHex r' g' b'))"

subsection \<open>\<^verbatim>\<open>std::stof\<close> and \<^verbatim>\<open>std::to_string\<close>\<close>

definition dec_value :: "string \<Rightarrow> int" where
  "dec_value ds = foldl (\<lambda>acc c. 10 * acc + (int (of_char c) - 48)) 0 ds"

text \<open>
  \<^verbatim>\<open>std::stof\<close> on a string of digits and dots, which is all the capture group of the
  opacity pattern can hold: \<^verbatim>\<open>strtof\<close> reads the longest prefix of the form
  \<^verbatim>\<open>digits[.digits]\<close> and rounds its value to the nearest \<^verbatim>\<open>float\<close>. No digit at all is
  \<^verbatim>\<open>std::invalid_argument\<close>; a value that overflows, or that is tiny and not exact, sets
  \<^verbatim>\<open>ERANGE\<close>, which \<^verbatim>\<open>std::stof\<close> turns into \<^verbatim>\<open>std::out_of_range\<close>. Tininess is decided
  as glibc decides it on x86-64, after rounding to 24 bits with an unbounded exponent: a
  value is tiny when that rounding stays below \<open>2\<^sup>-\<^sup>1\<^sup>2\<^sup>6\<close>, that is, when the value is below
  \<open>2\<^sup>-\<^sup>1\<^sup>2\<^sup>6 - 2\<^sup>-\<^sup>1\<^sup>5\<^sup>1\<close>. The result is never negative and never an infinity.
\<close>

definition stof :: "string \<Rightarrow> error + rat" where
  "stof s =
     (let ip = takeWhile isdigit s;
          r = dropWhile isdigit s;
          fp = (case r of c # t \<Rightarrow> if c = CHR ''.'' then takeWhile isdigit t else [] | [] \<Rightarrow> []);
          v = of_int (dec_value (ip @ fp)) / 10 ^ length fp;
          y = round32 v
      in if ip = [] \<and> fp = [] then Inl InvalidArgument
         else if 2 ^ 128 \<le> y then Inl OutOfRange
         else if y \<noteq> v \<and> v < 2 powi (- 126) - 2 powi (- 151) then Inl OutOfRange
         else Inr y)"

function dec_digits :: "nat \<Rightarrow> string" where
  "dec_digits n =
     (if n < 10 then [hexdigit n] else dec_digits (n div 10) @ [hexdigit (n mod 10)])"
  by pat_completeness auto
termination
  by (relation "measure id") auto

declare dec_digits.simps [simp del]

text \<open>
  \<^verbatim>\<open>std::to_string(float)\<close> prints with \<^verbatim>\<open>%f\<close>: the exact value rounded to six decimals.
\<close>

definition to_string_float :: "rat \<Rightarrow> string" where
  "to_string_float x =
     (let n = round_half_even (\<bar>x\<bar> * 10 ^ 6);
          fs = dec_digits (nat (n mod 10 ^ 6))
      in (if x < 0 then ''-'' else []) @ dec_digits (nat (n div 10 ^ 6)) @ ''.''
           @ replicate (6 - length fs) (CHR ''0'') @ fs)"

subsection \<open>OpacityFlattener: \<^verbatim>\<open>getSolid\<close>\<close>

text \<open>
  \<^verbatim>\<open>std::regex_search\<close> with the pattern \<^verbatim>\<open>fill-opacity="([\d\.]+)"\<close>: the leftmost position
  at which the literal is followed by a non-empty run of digits and dots and a double
  quote. The run is matched greedily and the quote is not in the class, so the capture is
  the maximal run. The result is the capture and the sfx after the match.
\<close>

definition opacity_literal :: string where
  \<open>opacity_literal = ''fill-opacity="''\<close>

definition is_opacity_char :: "char \<Rightarrow> bool" where
  "is_opacity_char c \<longleftrightarrow> isdigit c \<or> c = CHR ''.''"

definition match_opacity_here :: "string \<Rightarrow> (string \<times> string) option" where
  "match_opacity_here s =
     (if prefix opacity_literal s then
        (let r = drop (length opacity_literal) s;
             cap = takeWhile is_opacity_char r
         in case dropWhile is_opacity_char r of
              [] \<Rightarrow> None
            | c # sfx \<Rightarrow> if cap \<noteq> [] \<and> c = CHR 0x22 then Some (cap, sfx) else None)
      else None)"

fun search_opacity :: "string \<Rightarrow> (string \<times> string) option" where
  "search_opacity [] = None"
| "search_opacity (c # cs) =
     (case match_opacity_here (c # cs) of
        Some m \<Rightarrow> Some m
      | None \<Rightarrow> search_opacity cs)"

text \<open>\<^verbatim>\<open>std::set<float>::insert\<close>: the set is its elements in ascending order.\<close>

fun set_insert :: "rat \<Rightarrow> rat list \<Rightarrow> rat list" where
  "set_insert x [] = [x]"
| "set_insert x (y # ys) =
     (if x < y then x # y # ys else if x = y then y # ys else y # set_insert x ys)"

text \<open>The loop \<^verbatim>\<open>while (std::regex_search(temp, matches, opacityPattern))\<close>.\<close>

function collect_opacities :: "string \<Rightarrow> rat list \<Rightarrow> error + rat list" where
  "collect_opacities temp uniqueOpacities =
     (case search_opacity temp of
        None \<Rightarrow> Inr uniqueOpacities
      | Some (cap, sfx) \<Rightarrow>
          (case stof cap of
             Inl e \<Rightarrow> Inl e
           | Inr v \<Rightarrow> collect_opacities sfx (set_insert v uniqueOpacities)))"
  by pat_completeness auto
termination
proof (relation "measure (\<lambda>(temp, uniqueOpacities). length temp)")
  show "wf (measure (\<lambda>(temp, uniqueOpacities :: rat list). length (temp :: string)))"
    by simp
next
  fix temp :: string and uniqueOpacities :: "rat list" and m cap sfx v
  assume found: "search_opacity temp = Some m" "(cap, sfx) = m"
  have here: "length r < length s" if "match_opacity_here s = Some (c, r)" for s c r
  proof -
    let ?d = "drop (length opacity_literal) s"
    from that obtain q where "dropWhile is_opacity_char ?d = q # r"
      by (auto simp: match_opacity_here_def Let_def split: if_splits list.splits)
    then have "length r < length (dropWhile is_opacity_char ?d)" by simp
    also have "\<dots> \<le> length ?d" by (rule length_dropWhile_le)
    also have "\<dots> \<le> length s" by simp
    finally show ?thesis .
  qed
  have "length r < length s" if "search_opacity s = Some (c, r)" for s c r
    using that
  proof (induction s)
    case Nil
    then show ?case by simp
  next
    case (Cons a s)
    show ?case
    proof (cases "match_opacity_here (a # s)")
      case None
      with Cons show ?thesis by fastforce
    next
      case (Some k)
      with Cons.prems show ?thesis by (auto dest: here)
    qed
  qed
  with found have "length sfx < length temp" by blast
  then show "((sfx, set_insert v uniqueOpacities), temp, uniqueOpacities)
      \<in> measure (\<lambda>(temp, uniqueOpacities). length temp)"
    by simp
qed

declare collect_opacities.simps [simp del]

definition old_attr :: "rat \<Rightarrow> string" where
  \<open>old_attr opacity = ''fill-opacity="'' @ to_string_float opacity @ ''"''\<close>

definition new_attr :: "bool \<Rightarrow> string \<Rightarrow> string" where
  \<open>new_attr stroke hexColor =
     (if stroke then ''fill="'' @ hexColor @ ''" stroke-width="1" stroke="'' @ hexColor @ ''"''
      else ''fill="'' @ hexColor @ ''"'')\<close>

text \<open>
  The loop over \<^verbatim>\<open>sortedOpacities\<close>, from index \<open>i\<close> on: the list argument is the part of the
  vector from \<open>i\<close>, its tail the opacities the inner loop composes with.
\<close>

fun flatten_loop :: "bool \<Rightarrow> rat list \<Rightarrow> string \<Rightarrow> error + string" where
  "flatten_loop stroke [] result = Inr result"
| "flatten_loop stroke (opacity # lighter) result =
     (let trueOpacity = foldl combineOpacity (Finite opacity) (map Finite lighter) in
      case rgbaToHex 0 0 0 trueOpacity of
        Inl e \<Rightarrow> Inl e
      | Inr hexColor \<Rightarrow>
          flatten_loop stroke lighter
            (replace_all (old_attr opacity) (new_attr stroke hexColor) result))"

definition getSolid :: "string \<Rightarrow> bool \<Rightarrow> error + string" where
  \<open>getSolid svgContent stroke =
     (let result = replace_all ''fill="black"'' [] svgContent in
      case collect_opacities result [] of
        Inl e \<Rightarrow> Inl e
      | Inr uniqueOpacities \<Rightarrow>
          if uniqueOpacities = [] then Inr result
          else (case flatten_loop stroke (rev uniqueOpacities) result of
                  Inl e \<Rightarrow> Inl e
                | Inr flattened \<Rightarrow> Inr (replace_all '' stroke="none"'' [] flattened)))\<close>

subsection \<open>What a rewriting pass may change\<close>

text \<open>
  \<open>rewrite_pass P s t\<close>: the text \<open>t\<close> arises from \<open>s\<close> in one pass from left to right that
  replaces some non-overlapping occurrences of strings of \<open>P\<close> by other text and copies
  every other character.
\<close>

inductive rewrite_pass :: "string set \<Rightarrow> string \<Rightarrow> string \<Rightarrow> bool" for P :: "string set" where
  rw_end: "rewrite_pass P [] []"
| rw_keep: "rewrite_pass P s t \<Longrightarrow> rewrite_pass P (c # s) (c # t)"
| rw_subst: "m \<in> P \<Longrightarrow> rewrite_pass P s t \<Longrightarrow> rewrite_pass P (m @ s) (r @ t)"

definition fill_black :: string where
  \<open>fill_black = ''fill="black"''\<close>

definition stroke_none :: string where
  \<open>stroke_none = '' stroke="none"''\<close>

text \<open>
  The attributes \<^verbatim>\<open>fill-opacity="v"\<close> whose value \<open>v\<close> is a non-empty run of digits and
  dots, the texts that the opacity pattern matches.
\<close>

definition opacity_attrs :: "string set" where
  "opacity_attrs =
     {opacity_literal @ v @ [CHR 0x22] | v. v \<noteq> [] \<and> (\<forall>c\<in>set v. is_opacity_char c)}"

text \<open>
  The characters of a text that lie in no occurrence of \<^verbatim>\<open>fill="black"\<close>, of
  \<^verbatim>\<open> stroke="none"\<close> or of a \<^verbatim>\<open>fill-opacity\<close> attribute, in their order. \<open>target_length s\<close> is
  the length of the longest such occurrence that begins at the head of \<open>s\<close>; the first
  argument of \<open>unmatched_from\<close> counts the characters still covered by an occurrence that
  began earlier.
\<close>

definition target_length :: "string \<Rightarrow> nat" where
  "target_length s =
     max (if prefix fill_black s then length fill_black else 0)
       (max (if prefix stroke_none s then length stroke_none else 0)
          (case match_opacity_here s of Some (cap, sfx) \<Rightarrow> length s - length sfx | None \<Rightarrow> 0))"

fun unmatched_from :: "nat \<Rightarrow> string \<Rightarrow> string" where
  "unmatched_from k [] = []"
| "unmatched_from k (c # cs) =
     (let k' = max k (target_length (c # cs)) in
      if 0 < k' then unmatched_from (k' - 1) cs else c # unmatched_from 0 cs)"

definition unmatched :: "string \<Rightarrow> string" where
  "unmatched s = unmatched_from 0 s"

subsection \<open>Example images\<close>

text \<open>A row of a white and a black pixel, and a row of two white pixels and a red one.\<close>

definition img_white_black :: PixelData where
  "img_white_black =
     \<lparr>pixels = [[[255, 255, 255], [0, 0, 0]]], width = 2, height = 1, channels = 3,
      mode = ''RGB''\<rparr>"

definition img_black_white :: PixelData where
  "img_black_white =
     \<lparr>pixels = [[[0, 0, 0], [255, 255, 255]]], width = 2, height = 1, channels = 3,
      mode = ''RGB''\<rparr>"

definition img_white_white_red :: PixelData where
  "img_white_white_red =
     \<lparr>pixels = [[[255, 255, 255], [255, 255, 255], [255, 0, 0]]], width = 3, height = 1,
      channels = 3, mode = ''RGB''\<rparr>"

subsection \<open>Auxiliary notions used in the proofs\<close>

text \<open>A text in which white space occurs only as single spaces.\<close>

fun ws_norm :: "string \<Rightarrow> bool" where
  "ws_norm [] = True"
| "ws_norm (c # cs) =
     ((isspace c \<longrightarrow> c = CHR '' '' \<and> (case cs of [] \<Rightarrow> True | d # _ \<Rightarrow> \<not> isspace d)) \<and> ws_norm cs)"

abbreviation strip_gap :: "string \<Rightarrow> string" where
  "strip_gap \<equiv> replace_all ''> <'' ''><''"

definition starts_gap :: "string \<Rightarrow> bool" where
  "starts_gap s \<longleftrightarrow> prefix ''> <'' s"


text \<open>The body of the sampling loops on a well-formed buffer, and the count a histogram holds.\<close>

definition sample_step :: "PixelData \<Rightarrow> int \<times> int \<Rightarrow> histogram \<Rightarrow> histogram" where
  "sample_step data p colorCount =
     (if 3 \<le> channels data \<and> opaque_at data p then map_incr (color_at data p) colorCount
      else colorCount)"

definition hist_count :: "histogram \<Rightarrow> string \<Rightarrow> int" where
  "hist_count h k = (case map_of h k of Some n \<Rightarrow> n | None \<Rightarrow> 0)"

section \<open>Properties\<close>

subsection \<open>Hex encoding and decoding\<close>


lemma hexdigit_cases:
  assumes "d < (16::nat)"
  shows "d \<in> {0,1,2,3,4,5,6,7,8,9,10,11,12,13,14,15}"
  using assms by simp arith

lemma hexdigit_props:
  assumes "d < 16"
  shows "isxdigit (hexdigit d)" and "xdigit_val (hexdigit d) = int d"
    and "\<not> isspace (hexdigit d)" and "hexdigit d \<noteq> CHR ''-''" and "hexdigit d \<noteq> CHR ''+''"
  using hexdigit_cases [OF assms]
  by (auto simp: hexdigit_def isxdigit_def xdigit_val_def isspace_def)

lemma isxdigit_not_space_sign:
  assumes "isxdigit c"
  shows "\<not> isspace c" "c \<noteq> CHR ''-''" "c \<noteq> CHR ''+''"
  using assms by (auto simp: isxdigit_def isspace_def)


lemma xdigit_val_bounds:
  assumes "isxdigit c"
  shows "0 \<le> xdigit_val c" "xdigit_val c < 16"
  using assms by (auto simp: isxdigit_def xdigit_val_def)


lemma fmt_02x_byte:
  assumes "0 \<le> v" "v < 256"
  shows "fmt_02x v = [hexdigit (nat v div 16), hexdigit (nat v mod 16)]"
proof -
  have m: "nat (v mod 2 ^ 32) = nat v" using assms by simp
  show ?thesis
  proof (cases "nat v < 16")
    case True
    then show ?thesis unfolding fmt_02x_def m by (simp add: to_hex.simps [of "nat v"] hexdigit_def)
  next
    case False
    have "nat v div 16 < 16" using assms by auto
    with False show ?thesis unfolding fmt_02x_def m
      by (simp add: to_hex.simps [of "nat v"] to_hex.simps [of "nat v div 16"])
  qed
qed

lemma stoi16_two_xdigits:
  assumes "isxdigit c" "isxdigit d"
  shows "stoi16 [c, d] = Inr (16 * xdigit_val c + xdigit_val d)"
  using assms isxdigit_not_space_sign [OF assms(1)] xdigit_val_bounds [OF assms(1)]
    xdigit_val_bounds [OF assms(2)]
  by (simp add: stoi16_def hex_value_def)

lemma stoi16_hexdigits:
  assumes "a < 16" "b < 16"
  shows "stoi16 [hexdigit a, hexdigit b] = Inr (16 * int a + int b)"
  using stoi16_two_xdigits [of "hexdigit a" "hexdigit b"] assms
  by (simp add: hexdigit_props)

lemma stoi16_fmt_02x:
  assumes "0 \<le> v" "v < 256"
  shows "stoi16 (fmt_02x v) = Inr v"
proof -
  have "nat v div 16 < 16" "nat v mod 16 < 16" using assms by auto
  then have "stoi16 (fmt_02x v) = Inr (16 * int (nat v div 16) + int (nat v mod 16))"
    by (simp add: fmt_02x_byte [OF assms] stoi16_hexdigits)
  also have "16 * int (nat v div 16) + int (nat v mod 16) = v"
    using assms by (simp add: zdiv_int zmod_int)
  finally show ?thesis .
qed

lemma length_fmt_02x_byte: "0 \<le> v \<Longrightarrow> v < 256 \<Longrightarrow> length (fmt_02x v) = 2"
  by (simp add: fmt_02x_byte)

lemma hexToRgb_rgbToHex_bytes:
  assumes "0 \<le> r" "r \<le> 255" "0 \<le> g" "g \<le> 255" "0 \<le> b" "b \<le> 255"
  shows "hexToRgb (rgbToHex r g b) = Inr (r, g, b)"
proof -
  have len: "length (fmt_02x r) = 2" "length (fmt_02x g) = 2" "length (fmt_02x b) = 2"
    using assms by (simp_all add: length_fmt_02x_byte)
  have st: "stoi16 (fmt_02x r) = Inr r" "stoi16 (fmt_02x g) = Inr g" "stoi16 (fmt_02x b) = Inr b"
    using assms by (simp_all add: stoi16_fmt_02x)
  have hex: "expand3 (strip_hash (rgbToHex r g b)) = fmt_02x r @ fmt_02x g @ fmt_02x b"
    using len by (simp add: rgbToHex_def strip_hash_def expand3_def)
  show ?thesis
    unfolding hexToRgb_def hex using len st
    by (simp add: stoi_substr_def substr_def)
qed

text \<open>
  Claim C6: for all channel values \<open>r\<close>, \<open>g\<close>, \<open>b\<close> in \<open>[0, 255]\<close>, decoding the
  encoded colour gives the channels back: \<^verbatim>\<open>hexToRgb(rgbToHex(r, g, b)) == (r, g, b)\<close>,
  and no exception is raised on the way.
\<close>

theorem hexToRgb_rgbToHex:
  assumes "0 \<le> r" "r \<le> 255" "0 \<le> g" "g \<le> 255" "0 \<le> b" "b \<le> 255"
  shows "hexToRgb (rgbToHex r g b) = Inr (r, g, b)"
  using assms by (rule hexToRgb_rgbToHex_bytes)

theorem hexToRgb_rgbToHex_witness:
  "hexToRgb (rgbToHex 18 52 86) = Inr (18, 52, 86) \<and> rgbToHex 18 52 86 = ''#123456''"
  using hexToRgb_rgbToHex [of 18 52 86]
  by (simp add: rgbToHex_def fmt_02x_def to_hex.simps hexdigit_def)

subsection \<open>Malformed colour strings\<close>


lemma stoi16_Nil: "stoi16 [] = Inl InvalidArgument"
  by (simp add: stoi16_def)

lemma stoi16_bad_first:
  assumes "\<not> isxdigit c" "\<not> isspace c" "c \<noteq> CHR ''-''" "c \<noteq> CHR ''+''"
  shows "stoi16 (c # r) = Inl InvalidArgument"
proof -
  have z: "c \<noteq> CHR ''0''" using assms(1) by (auto simp: isxdigit_def)
  show ?thesis using assms z
    by (simp add: stoi16_def split: list.splits)
qed

lemma stoi16_doubled:
  assumes "\<not> isxdigit c"
  shows "stoi16 [c, c] = Inl InvalidArgument"
proof (cases "isspace c \<or> c = CHR ''-'' \<or> c = CHR ''+''")
  case True
  then show ?thesis using assms by (auto simp: stoi16_def)
next
  case False
  then show ?thesis using assms by (simp add: stoi16_bad_first)
qed

lemma stoi16_error_kind: "stoi16 f = Inl e \<Longrightarrow> e = InvalidArgument \<or> e = OutOfRange"
  by (auto simp: stoi16_def Let_def split: if_splits)

lemma stoi_substr_error_kind: "stoi_substr h p = Inl e \<Longrightarrow> e = InvalidArgument \<or> e = OutOfRange"
  by (auto simp: stoi_substr_def substr_def dest: stoi16_error_kind split: if_splits sum.splits)

lemma hexToRgb_error_kind: "hexToRgb s = Inl e \<Longrightarrow> e = InvalidArgument \<or> e = OutOfRange"
  unfolding hexToRgb_def Let_def
  by (auto dest: stoi_substr_error_kind split: sum.splits)

lemma hexToRgb_field_fails:
  assumes "p \<in> {0, 2, 4}" "stoi_substr (expand3 (strip_hash s)) p = Inl e"
  shows "\<exists>e'. hexToRgb s = Inl e'"
  using assms unfolding hexToRgb_def Let_def
  by (auto split: sum.splits)

lemma length_0124_fails:
  assumes "length h \<in> {0, 1, 2, 4}"
  shows "\<exists>p\<in>{0, 2, 4}. \<exists>e. stoi_substr (expand3 h) p = Inl e"
proof -
  have e: "expand3 h = h" using assms by (auto simp: expand3_def)
  consider "length h = 0" | "length h = 1" | "length h = 2" | "length h = 4"
    using assms by auto
  then show ?thesis
  proof cases
    case 1
    then show ?thesis unfolding e by (auto simp: stoi_substr_def substr_def stoi16_Nil)
  next
    case 2
    then have "stoi_substr h 2 = Inl OutOfRange" by (simp add: stoi_substr_def substr_def)
    then show ?thesis unfolding e by blast
  next
    case 3
    then have "stoi_substr h 2 = Inl InvalidArgument"
      by (simp add: stoi_substr_def substr_def stoi16_Nil)
    then show ?thesis unfolding e by blast
  next
    case 4
    then have "stoi_substr h 4 = Inl InvalidArgument"
      by (simp add: stoi_substr_def substr_def stoi16_Nil)
    then show ?thesis unfolding e by blast
  qed
qed

lemma length_3_fails:
  assumes "length h = 3" "c \<in> set h" "\<not> isxdigit c"
  shows "\<exists>p\<in>{0, 2, 4}. \<exists>e. stoi_substr (expand3 h) p = Inl e"
proof -
  obtain x y z where h: "h = [x, y, z]"
    using assms(1) by (auto simp: length_Suc_conv numeral_3_eq_3)
  have e: "expand3 h = [x, x, y, y, z, z]" by (simp add: h expand3_def)
  have f: "stoi_substr (expand3 h) 0 = stoi16 [x, x]" "stoi_substr (expand3 h) 2 = stoi16 [y, y]"
    "stoi_substr (expand3 h) 4 = stoi16 [z, z]"
    by (simp_all add: e stoi_substr_def substr_def)
  from assms(2) h have "c = x \<or> c = y \<or> c = z" by auto
  then show ?thesis using f stoi16_doubled [OF assms(3)] by auto
qed

lemma long_bad_offset_fails:
  assumes "5 \<le> length h" "i \<in> {0, 2, 4}"
    "\<not> isxdigit (h ! i)" "\<not> isspace (h ! i)" "h ! i \<noteq> CHR ''-''" "h ! i \<noteq> CHR ''+''"
  shows "\<exists>p\<in>{0, 2, 4}. \<exists>e. stoi_substr (expand3 h) p = Inl e"
proof -
  have e: "expand3 h = h" using assms(1) by (auto simp: expand3_def)
  have i: "i < length h" using assms(1,2) by auto
  then have "take 2 (drop i h) = h ! i # take 1 (drop (Suc i) h)"
    by (simp add: Cons_nth_drop_Suc [symmetric])
  then have "stoi_substr h i = Inl InvalidArgument"
    using i assms(3-6) by (simp add: stoi_substr_def substr_def stoi16_bad_first)
  then show ?thesis unfolding e using assms(2) by blast
qed

lemma stoi16_one:
  "stoi16 [c] = (if isxdigit c then Inr (xdigit_val c) else Inl InvalidArgument)"
proof (cases "isxdigit c")
  case True
  then show ?thesis
    using isxdigit_not_space_sign [OF True] xdigit_val_bounds [OF True]
    by (simp add: stoi16_def hex_value_def)
next
  case False
  then show ?thesis by (auto simp: stoi16_def)
qed

lemma space_sign_distinct: "isspace c \<Longrightarrow> c \<noteq> CHR ''-'' \<and> c \<noteq> CHR ''+''"
  by (auto simp: isspace_def)

lemma stoi16_two:
  "stoi16 [c, d] =
     (if isxdigit c then Inr (if isxdigit d then 16 * xdigit_val c + xdigit_val d else xdigit_val c)
      else if isspace c \<and> isxdigit d then Inr (xdigit_val d)
      else if c = CHR ''+'' \<and> isxdigit d then Inr (xdigit_val d)
      else if c = CHR ''-'' \<and> isxdigit d then Inr (- xdigit_val d)
      else Inl InvalidArgument)"
proof (cases "isxdigit c")
  case True
  show ?thesis
  proof (cases "isxdigit d")
    case d: True
    show ?thesis using True d by (simp add: stoi16_two_xdigits)
  next
    case False
    then show ?thesis
      using True isxdigit_not_space_sign [OF True] xdigit_val_bounds [OF True]
      by (simp add: stoi16_def hex_value_def)
  qed
next
  case nc: False
  show ?thesis
  proof (cases "isxdigit d")
    case True
    then show ?thesis
      using nc isxdigit_not_space_sign [OF True] xdigit_val_bounds [OF True]
        space_sign_distinct [of c]
      by (auto simp: stoi16_def hex_value_def stoi16_bad_first)
  next
    case False
    then show ?thesis using nc space_sign_distinct [of c] space_sign_distinct [of d]
      by (auto simp: stoi16_def)
  qed
qed

lemma stoi16_field:
  assumes "length f \<le> 2"
  shows "(\<exists>v. stoi16 f = Inr v) \<longleftrightarrow> reads_number f"
proof -
  consider "f = []" | c where "f = [c]" | c d where "f = [c, d]"
    using assms by (cases f; cases "tl f"; auto)
  then show ?thesis
  proof cases
    case 1
    then show ?thesis by (simp add: stoi16_def reads_number_def)
  next
    case 2
    then show ?thesis by (simp add: stoi16_one reads_number_def)
  next
    case 3
    then show ?thesis by (auto simp: stoi16_two reads_number_def)
  qed
qed

lemma stoi_substr_field:
  "(\<exists>v. stoi_substr h p = Inr v) \<longleftrightarrow> reads_number (take 2 (drop p h))"
proof (cases "length h < p")
  case True
  then show ?thesis by (simp add: stoi_substr_def substr_def reads_number_def)
next
  case False
  then show ?thesis
    using stoi16_field [of "take 2 (drop p h)"]
    by (simp add: stoi_substr_def substr_def)
qed

lemma hexToRgb_accepts_iff:
  "(\<exists>rgb. hexToRgb s = Inr rgb)
     \<longleftrightarrow> (\<forall>p\<in>{0, 2, 4}. reads_number (take 2 (drop p (expand3 (strip_hash s)))))"
proof -
  let ?h = "expand3 (strip_hash s)"
  have "(\<exists>rgb. hexToRgb s = Inr rgb)
     \<longleftrightarrow> (\<exists>r. stoi_substr ?h 0 = Inr r) \<and> (\<exists>g. stoi_substr ?h 2 = Inr g)
          \<and> (\<exists>b. stoi_substr ?h 4 = Inr b)"
    unfolding hexToRgb_def Let_def by (auto split: sum.splits)
  then show ?thesis unfolding stoi_substr_field by simp
qed

lemma hexToRgb_fails_iff:
  "(hexToRgb s = Inl InvalidArgument \<or> hexToRgb s = Inl OutOfRange)
     \<longleftrightarrow> (\<exists>p\<in>{0, 2, 4}. \<not> reads_number (take 2 (drop p (expand3 (strip_hash s)))))"
proof -
  have "(hexToRgb s = Inl InvalidArgument \<or> hexToRgb s = Inl OutOfRange)
      \<longleftrightarrow> \<not> (\<exists>rgb. hexToRgb s = Inr rgb)"
    using hexToRgb_error_kind [of s] by (cases "hexToRgb s") auto
  then show ?thesis unfolding hexToRgb_accepts_iff by blast
qed

lemma reads_number_xdigit: "isxdigit c \<Longrightarrow> reads_number (c # r)"
  by (simp add: reads_number_def)

lemma hexToRgb_accepts_long:
  assumes "5 \<le> length (strip_hash s)" "\<forall>i\<in>{0, 2, 4}. isxdigit (strip_hash s ! i)"
  shows "\<exists>rgb. hexToRgb s = Inr rgb"
proof -
  let ?h = "strip_hash s"
  have e: "expand3 ?h = ?h" using assms(1) by (auto simp: expand3_def)
  have "reads_number (take 2 (drop i ?h))" if "i \<in> {0, 2, 4}" for i
  proof -
    have i: "i < length ?h" using assms(1) that by auto
    then have "take 2 (drop i ?h) = ?h ! i # take 1 (drop (Suc i) ?h)"
      by (simp add: Cons_nth_drop_Suc [symmetric])
    moreover have "isxdigit (?h ! i)" using assms(2) that by blast
    ultimately show ?thesis by (simp add: reads_number_xdigit)
  qed
  then show ?thesis unfolding hexToRgb_accepts_iff e by blast
qed

lemma rejected_classes_fail:
  assumes "length (strip_hash s) \<in> {0, 1, 2, 4}
         \<or> (length (strip_hash s) = 3 \<and> (\<exists>c\<in>set (strip_hash s). \<not> isxdigit c))
         \<or> (5 \<le> length (strip_hash s) \<and> (\<exists>i\<in>{0, 2, 4}. \<not> starts_number (strip_hash s ! i)))"
  shows "hexToRgb s = Inl InvalidArgument \<or> hexToRgb s = Inl OutOfRange"
proof -
  have "\<exists>p\<in>{0, 2, 4}. \<exists>e. stoi_substr (expand3 (strip_hash s)) p = Inl e"
    using assms length_0124_fails [of "strip_hash s"] length_3_fails [of "strip_hash s"]
      long_bad_offset_fails [of "strip_hash s"]
    unfolding starts_number_def by blast
  then obtain e where "hexToRgb s = Inl e" using hexToRgb_field_fails by blast
  then show ?thesis using hexToRgb_error_kind by blast
qed

text \<open>
  Claim C7, as amended: \<^verbatim>\<open>hexToRgb\<close> has no validation of its own; it fails exactly where
  \<^verbatim>\<open>substr\<close> or \<^verbatim>\<open>std::stoi\<close> throws (\<^verbatim>\<open>std::out_of_range\<close>, \<^verbatim>\<open>std::invalid_argument\<close>).
  Let the digit part be the input without an optional leading \<^verbatim>\<open>#\<close>, each character doubled
  when there are three. \<^verbatim>\<open>hexToRgb\<close> returns a triple exactly when each of the three fields of
  two characters at offsets 0, 2 and 4 of the digit part begins with a hex digit, or with a
  white-space or sign character that a hex digit follows; otherwise it fails with one of the
  two exceptions. So it fails for every digit part of length 0, 1, 2 or 4, for every
  three-character digit part that holds a non-hex character, and for every digit part of
  length 5 or more whose character at offset 0, 2 or 4 is neither a hex digit, white space
  nor a sign; and it returns a triple for every digit part of length 5 or more with hex
  digits at offsets 0, 2 and 4, whatever stands at offsets 1, 3, 5 and beyond. A white-space
  or sign character at offset 0, 2 or 4 is accepted only when a hex digit follows it.
\<close>

theorem hexToRgb_rejects:
  "((\<exists>rgb. hexToRgb s = Inr rgb)
      \<longleftrightarrow> (\<forall>p\<in>{0, 2, 4}. reads_number (take 2 (drop p (expand3 (strip_hash s))))))
   \<and> ((hexToRgb s = Inl InvalidArgument \<or> hexToRgb s = Inl OutOfRange)
      \<longleftrightarrow> (\<exists>p\<in>{0, 2, 4}. \<not> reads_number (take 2 (drop p (expand3 (strip_hash s))))))
   \<and> (length (strip_hash s) \<in> {0, 1, 2, 4}
         \<or> (length (strip_hash s) = 3 \<and> (\<exists>c\<in>set (strip_hash s). \<not> isxdigit c))
         \<or> (5 \<le> length (strip_hash s) \<and> (\<exists>i\<in>{0, 2, 4}. \<not> starts_number (strip_hash s ! i)))
       \<longrightarrow> hexToRgb s = Inl InvalidArgument \<or> hexToRgb s = Inl OutOfRange)
   \<and> (5 \<le> length (strip_hash s) \<and> (\<forall>i\<in>{0, 2, 4}. isxdigit (strip_hash s ! i))
       \<longrightarrow> (\<exists>rgb. hexToRgb s = Inr rgb))"
  using hexToRgb_accepts_iff [of s] hexToRgb_fails_iff [of s] rejected_classes_fail [of s]
    hexToRgb_accepts_long [of s]
  by blast

theorem hexToRgb_rejects_witness:
  "length (strip_hash ''#12g'') = 3 \<and> \<not> isxdigit (CHR ''g'') \<and> hexToRgb ''#12g'' = Inl InvalidArgument
   \<and> length (strip_hash ''#1'') = 1 \<and> hexToRgb ''#1'' = Inl OutOfRange
   \<and> \<not> reads_number (take 2 (drop 0 (expand3 (strip_hash ''#+g3456''))))
   \<and> hexToRgb ''#+g3456'' = Inl InvalidArgument
   \<and> \<not> reads_number (take 2 (drop 0 (expand3 (strip_hash ''# g3456''))))
   \<and> hexToRgb ''# g3456'' = Inl InvalidArgument
   \<and> length (strip_hash ''#1z3z5'') = 5 \<and> hexToRgb ''#1z3z5'' = Inr (1, 3, 5)"
  using hexToRgb_rejects [of "''#12g''"] hexToRgb_rejects [of "''#1''"]
    hexToRgb_rejects [of "''#+g3456''"] hexToRgb_rejects [of "''# g3456''"]
    hexToRgb_rejects [of "''#1z3z5''"]
  by (simp add: hexToRgb_def strip_hash_def expand3_def stoi_substr_def substr_def stoi16_def
      isxdigit_def isspace_def hex_value_def xdigit_val_def reads_number_def)

text \<open>
  The claim as stated fails: a digit part of seven characters and a digit part with a
  non-hex sixth character are both decoded to a triple.
\<close>

theorem hexToRgb_silent_coercion:
  "length (strip_hash ''#1234567'') = 7 \<and> hexToRgb ''#1234567'' = Inr (18, 52, 86)
   \<and> \<not> isxdigit (CHR ''g'') \<and> hexToRgb ''#12345g'' = Inr (18, 52, 5)"
  by (simp add: hexToRgb_def strip_hash_def expand3_def stoi_substr_def substr_def stoi16_def
      isxdigit_def isspace_def hex_value_def xdigit_val_def)


subsection \<open>\<^verbatim>\<open>optimizeSvg\<close> is idempotent\<close>

lemma strip_gap_Nil [simp]: "strip_gap [] = []"
  by (simp add: replace_all.simps)

lemma strip_gap_hit [simp]:
  "strip_gap (CHR ''>'' # CHR '' '' # CHR ''<'' # t) = CHR ''>'' # CHR ''<'' # strip_gap t"
  by (subst replace_all.simps) simp

lemma starts_gap_iff: "starts_gap s \<longleftrightarrow> (\<exists>t. s = CHR ''>'' # CHR '' '' # CHR ''<'' # t)"
  by (auto simp: starts_gap_def prefix_def)

lemma strip_gap_miss:
  "\<not> starts_gap (c # cs) \<Longrightarrow> strip_gap (c # cs) = c # strip_gap cs"
  unfolding starts_gap_def by (subst replace_all.simps) (simp del: prefix_Cons prefix_code)

lemma strip_gap_cases:
  obtains (nil) "s = []"
  | (hit) t where "s = CHR ''>'' # CHR '' '' # CHR ''<'' # t"
  | (miss) c cs where "s = c # cs" "\<not> starts_gap (c # cs)"
  by (cases s) (auto simp: starts_gap_iff)

lemma strip_gap_first:
  "strip_gap s = d # r \<Longrightarrow> \<exists>r'. s = d # r'"
  by (cases s rule: strip_gap_cases) (auto simp: strip_gap_miss)

lemma strip_gap_second_space:
  assumes "strip_gap s = CHR '' '' # CHR ''<'' # r"
  shows "\<exists>r'. s = CHR '' '' # CHR ''<'' # r'"
proof (cases s rule: strip_gap_cases)
  case nil
  with assms show ?thesis by simp
next
  case (hit t)
  with assms show ?thesis by simp
next
  case (miss c cs)
  with assms have c: "c = CHR '' ''" and r: "strip_gap cs = CHR ''<'' # r"
    by (simp_all add: strip_gap_miss)
  from strip_gap_first [OF r] c miss show ?thesis by auto
qed

lemma strip_gap_no_new_hit:
  assumes "\<not> starts_gap (c # cs)"
  shows "\<not> starts_gap (c # strip_gap cs)"
proof
  assume "starts_gap (c # strip_gap cs)"
  then obtain t where c: "c = CHR ''>''" and "strip_gap cs = CHR '' '' # CHR ''<'' # t"
    by (auto simp: starts_gap_iff)
  then obtain r' where "cs = CHR '' '' # CHR ''<'' # r'"
    using strip_gap_second_space by blast
  with c assms show False by (simp add: starts_gap_iff)
qed

lemma strip_gap_idem: "strip_gap (strip_gap s) = strip_gap s"
proof (induction s rule: length_induct)
  case (1 s)
  show ?case
  proof (cases s rule: strip_gap_cases)
    case nil
    then show ?thesis by simp
  next
    case (hit t)
    have a: "\<not> starts_gap (CHR ''>'' # CHR ''<'' # strip_gap t)"
      and b: "\<not> starts_gap (CHR ''<'' # strip_gap t)"
      by (simp_all add: starts_gap_iff)
    from 1 hit have "strip_gap (strip_gap t) = strip_gap t" by simp
    with hit show ?thesis by (simp add: strip_gap_miss [OF a] strip_gap_miss [OF b])
  next
    case (miss c cs)
    from 1 miss have ih: "strip_gap (strip_gap cs) = strip_gap cs" by simp
    from miss have "\<not> starts_gap (c # strip_gap cs)" by (simp add: strip_gap_no_new_hit)
    with miss ih show ?thesis by (simp add: strip_gap_miss)
  qed
qed

lemma collapse_ws_head:
  "\<not> isspace c \<Longrightarrow> collapse_ws (c # cs) = c # collapse_ws cs"
  by simp

lemma dropWhile_head: "dropWhile P xs = y # ys \<Longrightarrow> \<not> P y"
  by (metis hd_dropWhile list.sel(1) list.distinct(1))

lemma ws_norm_collapse: "ws_norm (collapse_ws s)"
proof (induction s rule: collapse_ws.induct)
  case 1
  show ?case by simp
next
  case (2 c cs)
  show ?case
  proof (cases "isspace c")
    case True
    have "case collapse_ws (dropWhile isspace cs) of [] \<Rightarrow> True | d # _ \<Rightarrow> \<not> isspace d"
    proof (cases "dropWhile isspace cs")
      case Nil
      show ?thesis unfolding Nil by simp
    next
      case (Cons y ys)
      then have "\<not> isspace y" by (rule dropWhile_head)
      then show ?thesis unfolding Cons by simp
    qed
    with True 2 show ?thesis by simp
  next
    case False
    with 2 show ?thesis by simp
  qed
qed

lemma collapse_ws_norm: "ws_norm t \<Longrightarrow> collapse_ws t = t"
proof (induction t)
  case Nil
  show ?case by simp
next
  case (Cons c cs)
  then have n: "collapse_ws cs = cs" by simp
  show ?case
  proof (cases "isspace c")
    case True
    with Cons.prems have c: "c = CHR '' ''" and d: "dropWhile isspace cs = cs"
      by (cases cs; simp)+
    with True n show ?thesis by simp
  next
    case False
    with n show ?thesis by simp
  qed
qed

lemma ws_norm_strip_gap: "ws_norm t \<Longrightarrow> ws_norm (strip_gap t)"
proof (induction t rule: length_induct)
  case (1 t)
  show ?case
  proof (cases t rule: strip_gap_cases)
    case nil
    then show ?thesis by simp
  next
    case (hit u)
    with "1.prems" have "ws_norm u" by simp
    with 1 hit have "ws_norm (strip_gap u)" by simp
    with hit show ?thesis by (simp add: isspace_def)
  next
    case (miss c cs)
    with "1.prems" have "ws_norm cs" by simp
    with 1 miss have n: "ws_norm (strip_gap cs)" by simp
    have "case strip_gap cs of [] \<Rightarrow> True | d # _ \<Rightarrow> \<not> isspace d" if "isspace c"
    proof (cases "strip_gap cs")
      case Nil
      then show ?thesis by simp
    next
      case (Cons d r)
      then obtain r' where "cs = d # r'" using strip_gap_first by blast
      with that "1.prems" miss have "\<not> isspace d" by simp
      with Cons show ?thesis by simp
    qed
    with n miss "1.prems" show ?thesis by (simp add: strip_gap_miss)
  qed
qed

text \<open>
  Claim C8: for every SVG text \<open>s\<close>, \<^verbatim>\<open>optimizeSvg(optimizeSvg(s))\<close> equals
  \<^verbatim>\<open>optimizeSvg(s)\<close>: a second pass of white-space collapsing and of removing the space
  between \<^verbatim>\<open>>\<close> and \<^verbatim>\<open><\<close> changes nothing.
\<close>

theorem optimizeSvg_idempotent: "optimizeSvg (optimizeSvg s) = optimizeSvg s"
proof -
  have "ws_norm (optimizeSvg s)"
    unfolding optimizeSvg_def by (rule ws_norm_strip_gap) (rule ws_norm_collapse)
  then have "collapse_ws (optimizeSvg s) = optimizeSvg s" by (rule collapse_ws_norm)
  then have "optimizeSvg (optimizeSvg s) = strip_gap (optimizeSvg s)"
    by (simp add: optimizeSvg_def)
  also have "\<dots> = optimizeSvg s" unfolding optimizeSvg_def by (rule strip_gap_idem)
  finally show ?thesis .
qed


subsection \<open>Nearest colour\<close>


lemma hex_value_le2:
  assumes "\<forall>c\<in>set ds. isxdigit c" "length ds \<le> 2"
  shows "0 \<le> hex_value ds \<and> hex_value ds \<le> 255"
proof -
  consider "ds = []" | c where "ds = [c]" | c d where "ds = [c, d]"
    using assms(2) by (cases ds; cases "tl ds"; auto)
  then show ?thesis
  proof cases
    case 1 then show ?thesis by (simp add: hex_value_def)
  next
    case 2 then show ?thesis using assms(1) xdigit_val_bounds [of c] by (simp add: hex_value_def)
  next
    case 3 then show ?thesis using assms(1) xdigit_val_bounds [of c] xdigit_val_bounds [of d]
      by (simp add: hex_value_def)
  qed
qed

lemma stoi16_short_bounds:
  assumes "length f \<le> 2" "stoi16 f = Inr v"
  shows "- 255 \<le> v \<and> v \<le> 255"
proof -
  define s1 where "s1 = dropWhile isspace f"
  define s2 where "s2 = (case s1 of c # r \<Rightarrow> if c = CHR ''-'' \<or> c = CHR ''+'' then r else s1 | [] \<Rightarrow> s1)"
  have l1: "length s1 \<le> 2" unfolding s1_def using assms(1) length_dropWhile_le [of isspace f] by linarith
  have l2: "length s2 \<le> 2" unfolding s2_def using l1 by (auto split: list.splits)
  have s3: "(case s2 of z # x # h # r \<Rightarrow>
                  if z = CHR ''0'' \<and> (x = CHR ''x'' \<or> x = CHR ''X'') \<and> isxdigit h then h # r else s2
                | _ \<Rightarrow> s2) = s2"
    using l2 by (auto split: list.splits)
  define ds where "ds = takeWhile isxdigit s2"
  have "length ds \<le> 2" unfolding ds_def using l2 length_takeWhile_le [of isxdigit s2] by linarith
  moreover have "\<forall>c\<in>set ds. isxdigit c" unfolding ds_def by (auto dest: set_takeWhileD)
  ultimately have b: "0 \<le> hex_value ds \<and> hex_value ds \<le> 255" by (rule hex_value_le2 [rotated])
  have "v = hex_value ds \<or> v = - hex_value ds"
    using assms(2) unfolding stoi16_def Let_def s1_def [symmetric] s2_def [symmetric] s3 ds_def [symmetric]
    by (auto split: if_splits)
  with b show ?thesis by auto
qed

lemma stoi_substr_bounds:
  assumes "stoi_substr h p = Inr v"
  shows "- 255 \<le> v \<and> v \<le> 255"
  using assms stoi16_short_bounds [of "take 2 (drop p h)" v]
  by (auto simp: stoi_substr_def substr_def split: if_splits)

lemma hexToRgb_bounds:
  assumes "hexToRgb s = Inr (r, g, b)"
  shows "- 255 \<le> r \<and> r \<le> 255 \<and> - 255 \<le> g \<and> g \<le> 255 \<and> - 255 \<le> b \<and> b \<le> 255"
  using assms unfolding hexToRgb_def Let_def
  by (auto split: sum.splits dest!: stoi_substr_bounds)

lemma nearest_loop_spec:
  assumes "\<forall>c\<in>set cs. \<not> isl (hexToRgb c)"
  shows "(\<exists>pre x post. cs = pre @ x # post \<and> nearest_loop t cs m n = Inr x
            \<and> distance t (projr (hexToRgb x)) < m
            \<and> (\<forall>y\<in>set pre. distance t (projr (hexToRgb x)) < distance t (projr (hexToRgb y)))
            \<and> (\<forall>y\<in>set post. distance t (projr (hexToRgb x)) \<le> distance t (projr (hexToRgb y))))
       \<or> (nearest_loop t cs m n = Inr n \<and> (\<forall>y\<in>set cs. m \<le> distance t (projr (hexToRgb y))))"
  using assms
proof (induction cs arbitrary: m n)
  case Nil
  show ?case by simp
next
  case (Cons c cs)
  let ?D = "\<lambda>x. distance t (projr (hexToRgb x))"
  from Cons.prems obtain v where v: "hexToRgb c = Inr v" by (cases "hexToRgb c") auto
  from Cons.prems have rest: "\<forall>c\<in>set cs. \<not> isl (hexToRgb c)" by simp
  show ?case
  proof (cases "?D c < m")
    case True
    then have step: "nearest_loop t (c # cs) m n = nearest_loop t cs (?D c) c"
      by (simp add: v)
    from Cons.IH [OF rest, of "?D c" c] show ?thesis
    proof (elim disjE exE conjE)
      fix pre x post
      assume a: "cs = pre @ x # post" "nearest_loop t cs (?D c) c = Inr x" "?D x < ?D c"
        "\<forall>y\<in>set pre. ?D x < ?D y" "\<forall>y\<in>set post. ?D x \<le> ?D y"
      have "c # cs = (c # pre) @ x # post" using a(1) by simp
      moreover have "?D x < m" using a(3) True by linarith
      moreover have "\<forall>y\<in>set (c # pre). ?D x < ?D y" using a(3,4) by simp
      ultimately show ?thesis using a(2,5) step by metis
    next
      assume a: "nearest_loop t cs (?D c) c = Inr c" "\<forall>y\<in>set cs. ?D c \<le> ?D y"
      have "c # cs = [] @ c # cs" by simp
      moreover have "\<forall>y\<in>set []. ?D c < ?D y" by simp
      ultimately show ?thesis using a step True by metis
    qed
  next
    case False
    then have step: "nearest_loop t (c # cs) m n = nearest_loop t cs m n"
      by (simp add: v)
    from Cons.IH [OF rest, of m n] show ?thesis
    proof (elim disjE exE conjE)
      fix pre x post
      assume a: "cs = pre @ x # post" "nearest_loop t cs m n = Inr x" "?D x < m"
        "\<forall>y\<in>set pre. ?D x < ?D y" "\<forall>y\<in>set post. ?D x \<le> ?D y"
      have "c # cs = (c # pre) @ x # post" using a(1) by simp
      moreover have "\<forall>y\<in>set (c # pre). ?D x < ?D y" using a(3,4) False by auto
      ultimately show ?thesis using a(2,3,5) step by metis
    next
      assume a: "nearest_loop t cs m n = Inr n" "\<forall>y\<in>set cs. m \<le> ?D y"
      then show ?thesis using step False by auto
    qed
  qed
qed

lemma DBL_MAX_large: "1000 < DBL_MAX"
proof -
  have "(1000::real) < 2 ^ 10" by simp
  also have "\<dots> \<le> 2 ^ 971" by (rule power_increasing) simp_all
  also have "\<dots> \<le> DBL_MAX" unfolding DBL_MAX_def by simp
  finally show ?thesis .
qed

lemma distance_eq:
  "distance (r1, g1, b1) (r2, g2, b2)
     = sqrt (real_of_int ((r1 - r2) ^ 2 + (g1 - g2) ^ 2 + (b1 - b2) ^ 2))"
  by (simp add: distance_def)

lemma sq_bound: "- 255 \<le> a \<Longrightarrow> a \<le> 255 \<Longrightarrow> - 255 \<le> b \<Longrightarrow> b \<le> 255 \<Longrightarrow> (a - b) ^ 2 \<le> (510::int) ^ 2"
  by (rule power2_le_iff_abs_le [THEN iffD2]) auto

lemma distance_lt_DBL_MAX:
  assumes "hexToRgb a = Inr t" "hexToRgb c = Inr v"
  shows "distance t v < DBL_MAX"
proof -
  obtain r1 g1 b1 r2 g2 b2 where tv: "t = (r1, g1, b1)" "v = (r2, g2, b2)"
    by (cases t; cases v) auto
  note b1 = hexToRgb_bounds [OF assms(1) [unfolded tv]]
  note b2 = hexToRgb_bounds [OF assms(2) [unfolded tv]]
  have "(r1 - r2) ^ 2 + (g1 - g2) ^ 2 + (b1 - b2) ^ 2 \<le> 3 * (510::int) ^ 2"
    using sq_bound [of r1 r2] sq_bound [of g1 g2] sq_bound [of b1 b2] b1 b2 by linarith
  then have "(r1 - r2) ^ 2 + (g1 - g2) ^ 2 + (b1 - b2) ^ 2 \<le> (1000::int) ^ 2" by simp
  then have "real_of_int ((r1 - r2) ^ 2 + (g1 - g2) ^ 2 + (b1 - b2) ^ 2) \<le> 1000 ^ 2"
    by (metis of_int_le_iff of_int_numeral of_int_power)
  then have "distance t v \<le> sqrt (1000 ^ 2)"
    unfolding tv distance_eq by (rule real_sqrt_le_mono)
  then show ?thesis using DBL_MAX_large by simp
qed

lemma distance_sq_dist:
  assumes "hexToRgb a = Inr t" "hexToRgb c = Inr v"
  shows "distance t v = sqrt (real_of_int (sq_dist a c))"
  using assms by (cases t; cases v) (simp add: sq_dist_def distance_def)

lemma findNearestColor_split:
  assumes "colorList \<noteq> []" "hexToRgb color = Inr t"
    and ok: "\<forall>c\<in>set colorList. \<exists>v. hexToRgb c = Inr v"
  shows "\<exists>pre x post. colorList = pre @ x # post \<and> findNearestColor color colorList = Inr x
            \<and> (\<forall>y\<in>set pre. sq_dist color x < sq_dist color y)
            \<and> (\<forall>y\<in>set post. sq_dist color x \<le> sq_dist color y)"
proof -
  let ?D = "\<lambda>x. distance t (projr (hexToRgb x))"
  obtain c0 cs where cl: "colorList = c0 # cs" using assms(1) by (cases colorList) auto
  have D: "?D c = sqrt (real_of_int (sq_dist color c))" "?D c < DBL_MAX" if "c \<in> set colorList" for c
  proof -
    from ok that obtain v where v: "hexToRgb c = Inr v" by blast
    show "?D c = sqrt (real_of_int (sq_dist color c))"
      using distance_sq_dist [OF assms(2) v] by (simp add: v)
    show "?D c < DBL_MAX" using distance_lt_DBL_MAX [OF assms(2) v] by (simp add: v)
  qed
  have f: "findNearestColor color colorList = nearest_loop t colorList DBL_MAX c0"
    by (simp add: findNearestColor_def assms(2) cl)
  have "\<forall>c\<in>set colorList. \<not> isl (hexToRgb c)" using ok by auto
  from nearest_loop_spec [OF this, of t DBL_MAX c0] show ?thesis
  proof (elim disjE exE conjE)
    fix pre x post
    assume a: "colorList = pre @ x # post" "nearest_loop t colorList DBL_MAX c0 = Inr x"
      "\<forall>y\<in>set pre. ?D x < ?D y" "\<forall>y\<in>set post. ?D x \<le> ?D y"
    have x: "x \<in> set colorList" using a(1) by simp
    have "sq_dist color x < sq_dist color y" if "y \<in> set pre" for y
    proof -
      have "y \<in> set colorList" using that a(1) by simp
      moreover from a(3) that have "?D x < ?D y" by blast
      ultimately show ?thesis using D(1) [OF x] D(1) [of y] by simp
    qed
    moreover have "sq_dist color x \<le> sq_dist color y" if "y \<in> set post" for y
    proof -
      have "y \<in> set colorList" using that a(1) by simp
      moreover from a(4) that have "?D x \<le> ?D y" by blast
      ultimately show ?thesis using D(1) [OF x] D(1) [of y] by simp
    qed
    ultimately show ?thesis using a(1,2) f by metis
  next
    assume "\<forall>y\<in>set colorList. DBL_MAX \<le> ?D y"
    then have "DBL_MAX \<le> ?D c0" by (simp add: cl)
    moreover have "?D c0 < DBL_MAX" using D(2) [of c0] by (simp add: cl)
    ultimately show ?thesis by simp
  qed
qed

lemma findNearestColor_example:
  "findNearestColor ''#101010'' [''#000000'', ''#ffffff''] = Inr ''#000000''"
proof -
  have h: "hexToRgb ''#101010'' = Inr (16, 16, 16)" "hexToRgb ''#000000'' = Inr (0, 0, 0)"
    "hexToRgb ''#ffffff'' = Inr (255, 255, 255)"
    by (simp_all add: hexToRgb_def strip_hash_def expand3_def stoi_substr_def substr_def stoi16_def
      isxdigit_def isspace_def hex_value_def xdigit_val_def)
  have "sqrt 768 < DBL_MAX" using DBL_MAX_large real_sqrt_less_mono [of 768 "1000 ^ 2"] by simp
  then show ?thesis
    by (simp add: findNearestColor_def h distance_def)
qed

text \<open>
  Claim C3: for every target colour and every non-empty list of candidate colours,
  \<^verbatim>\<open>findNearestColor\<close> returns a member of the list whose squared Euclidean distance in RGB
  space to the target is minimal, and among candidates at that distance the one that
  occurs first: every earlier candidate is strictly farther. For the candidates
  \<^verbatim>\<open>["#000000", "#ffffff"]\<close> and the target \<^verbatim>\<open>"#101010"\<close> it returns \<^verbatim>\<open>"#000000"\<close>.
\<close>

theorem findNearestColor_nearest:
  assumes "colorList \<noteq> []" "hexToRgb color = Inr t"
    and "\<forall>c\<in>set colorList. \<exists>v. hexToRgb c = Inr v"
  shows "(\<exists>k<length colorList. findNearestColor color colorList = Inr (colorList ! k)
            \<and> (\<forall>j<length colorList. sq_dist color (colorList ! k) \<le> sq_dist color (colorList ! j))
            \<and> (\<forall>j<k. sq_dist color (colorList ! k) < sq_dist color (colorList ! j)))
       \<and> findNearestColor ''#101010'' [''#000000'', ''#ffffff''] = Inr ''#000000''"
proof -
  from findNearestColor_split [OF assms] obtain pre x post where
    a: "colorList = pre @ x # post" "findNearestColor color colorList = Inr x"
      "\<forall>y\<in>set pre. sq_dist color x < sq_dist color y"
      "\<forall>y\<in>set post. sq_dist color x \<le> sq_dist color y"
    by blast
  let ?k = "length pre"
  have k: "?k < length colorList" "colorList ! ?k = x" by (simp_all add: a(1))
  have lt: "sq_dist color x < sq_dist color (colorList ! j)" if "j < ?k" for j
    using that a(3) by (simp add: a(1) nth_append)
  have le: "sq_dist color x \<le> sq_dist color (colorList ! j)" if "j < length colorList" for j
  proof -
    consider "j < ?k" | "j = ?k" | "?k < j" by linarith
    then show ?thesis
    proof cases
      case 1 then show ?thesis using lt by (simp add: less_imp_le)
    next
      case 2 then show ?thesis by (simp add: a(1))
    next
      case 3
      then have "colorList ! j = post ! (j - ?k - 1)" by (simp add: a(1) nth_append nth_Cons')
      moreover have "j - ?k - 1 < length post" using 3 that by (simp add: a(1))
      ultimately show ?thesis using a(4) by simp
    qed
  qed
  have "\<exists>k<length colorList. findNearestColor color colorList = Inr (colorList ! k)
            \<and> (\<forall>j<length colorList. sq_dist color (colorList ! k) \<le> sq_dist color (colorList ! j))
            \<and> (\<forall>j<k. sq_dist color (colorList ! k) < sq_dist color (colorList ! j))"
    using k a(2) lt le by blast
  then show ?thesis using findNearestColor_example by blast
qed

theorem findNearestColor_nearest_witness:
  "[''#000000'', ''#202020'', ''#ffffff''] \<noteq> [] \<and> hexToRgb ''#101010'' = Inr (16, 16, 16)
   \<and> hexToRgb ''#000000'' = Inr (0, 0, 0) \<and> hexToRgb ''#202020'' = Inr (32, 32, 32)
   \<and> hexToRgb ''#ffffff'' = Inr (255, 255, 255)
   \<and> sq_dist ''#101010'' ''#000000'' = 768 \<and> sq_dist ''#101010'' ''#202020'' = 768
   \<and> sq_dist ''#101010'' ''#ffffff'' = 171363
   \<and> (\<exists>k<length [''#000000'', ''#202020'', ''#ffffff'']. findNearestColor ''#101010'' [''#000000'', ''#202020'', ''#ffffff'']
                 = Inr ([''#000000'', ''#202020'', ''#ffffff''] ! k)
            \<and> (\<forall>j<length [''#000000'', ''#202020'', ''#ffffff'']. sq_dist ''#101010'' ([''#000000'', ''#202020'', ''#ffffff''] ! k)
                       \<le> sq_dist ''#101010'' ([''#000000'', ''#202020'', ''#ffffff''] ! j))
            \<and> (\<forall>j<k. sq_dist ''#101010'' ([''#000000'', ''#202020'', ''#ffffff''] ! k)
                       < sq_dist ''#101010'' ([''#000000'', ''#202020'', ''#ffffff''] ! j)))"
proof -
  have h: "hexToRgb ''#101010'' = Inr (16, 16, 16)" "hexToRgb ''#000000'' = Inr (0, 0, 0)"
    "hexToRgb ''#202020'' = Inr (32, 32, 32)" "hexToRgb ''#ffffff'' = Inr (255, 255, 255)"
    by (simp_all add: hexToRgb_def strip_hash_def expand3_def stoi_substr_def substr_def stoi16_def
      isxdigit_def isspace_def hex_value_def xdigit_val_def)
  have ne: "[''#000000'', ''#202020'', ''#ffffff''] \<noteq> []" by simp
  have ok: "\<forall>c\<in>set [''#000000'', ''#202020'', ''#ffffff'']. \<exists>v. hexToRgb c = Inr v"
    using h by simp
  have d: "sq_dist ''#101010'' ''#000000'' = 768" "sq_dist ''#101010'' ''#202020'' = 768"
    "sq_dist ''#101010'' ''#ffffff'' = 171363"
    by (simp_all add: sq_dist_def h)
  from findNearestColor_nearest [OF ne h(1) ok] show ?thesis
    using h d by blast
qed


subsection \<open>Dominant colours\<close>


lemma for_range_bounds:
  "j \<in> set (for_range i n stride) \<Longrightarrow> i \<le> j \<and> j < n"
proof (induction i n stride rule: for_range.induct)
  case (1 i n stride)
  show ?case
  proof (cases "i < n \<and> 0 < stride")
    case True
    with "1.prems" have "j = i \<or> j \<in> set (for_range (i + stride) n stride)"
      by (subst (asm) for_range.simps) simp
    with True "1.IH" show ?thesis by auto
  next
    case False
    with "1.prems" show ?thesis by (subst (asm) for_range.simps) simp
  qed
qed

lemma vec_at_in_range:
  "0 \<le> i \<Longrightarrow> i < int (length xs) \<Longrightarrow> vec_at xs i = Inr (xs ! nat i)"
  by (simp add: vec_at_def)

lemma pixel_in_range:
  assumes "wf_pixels data" "0 \<le> y" "y < height data" "0 \<le> x" "x < width data"
    "0 \<le> c" "c < channels data"
  shows "pixel data y x c = Inr (sample_at data (y, x) ! nat c)"
proof -
  from assms(1) have h: "int (length (pixels data)) = height data"
    and r: "\<And>row. row \<in> set (pixels data) \<Longrightarrow> int (length row) = width data"
    and p: "\<And>row px. row \<in> set (pixels data) \<Longrightarrow> px \<in> set row \<Longrightarrow> int (length px) = channels data"
    by (auto simp: wf_pixels_def)
  let ?row = "pixels data ! nat y"
  have y: "nat y < length (pixels data)" using assms(2,3) h by linarith
  then have row: "?row \<in> set (pixels data)" by simp
  have x: "nat x < length ?row" using assms(4,5) r [OF row] by linarith
  then have px: "?row ! nat x \<in> set ?row" by simp
  have c: "c < int (length (?row ! nat x))" using assms(7) p [OF row px] by linarith
  have "vec_at (pixels data) y = Inr ?row" using assms(2,3) h by (simp add: vec_at_in_range)
  moreover have "vec_at ?row x = Inr (?row ! nat x)"
    using assms(4,5) r [OF row] by (simp add: vec_at_in_range)
  moreover have "vec_at (?row ! nat x) c = Inr (?row ! nat x ! nat c)"
    using assms(6) c by (simp add: vec_at_in_range)
  ultimately show ?thesis by (simp add: pixel_def sample_at_def)
qed

lemma count_pixel_in_range:
  assumes "wf_pixels data" "0 \<le> y" "y < height data" "0 \<le> x" "x < width data"
    "3 \<le> channels data"
  shows "count_pixel data y x cc = Inr (map_incr (color_at data (y, x)) cc)"
proof -
  have "pixel data y x 0 = Inr (sample_at data (y, x) ! 0)"
    "pixel data y x 1 = Inr (sample_at data (y, x) ! 1)"
    "pixel data y x 2 = Inr (sample_at data (y, x) ! 2)"
    using pixel_in_range [OF assms(1-5), of 0] pixel_in_range [OF assms(1-5), of 1]
      pixel_in_range [OF assms(1-5), of 2] assms(6)
    by (simp_all add: numeral_2_eq_2)
  then show ?thesis by (simp add: count_pixel_def color_at_def)
qed

lemma sample_pixel_in_range:
  assumes "wf_pixels data" "0 \<le> y" "y < height data" "0 \<le> x" "x < width data"
  shows "sample_pixel data y x cc = Inr (sample_step data (y, x) cc)"
proof (cases "3 \<le> channels data")
  case False
  then show ?thesis by (simp add: sample_pixel_def sample_step_def)
next
  case True
  note cp = count_pixel_in_range [OF assms True]
  show ?thesis
  proof (cases "channels data = 4")
    case False
    with True show ?thesis by (simp add: sample_pixel_def sample_step_def cp opaque_at_def)
  next
    case four: True
    have "pixel data y x 3 = Inr (sample_at data (y, x) ! 3)"
      using pixel_in_range [OF assms, of 3] four by (simp add: numeral_3_eq_3)
    with True four show ?thesis
      by (simp add: sample_pixel_def sample_step_def cp opaque_at_def)
  qed
qed

lemma fold_concat_lists: "fold f (concat xss) s = fold (fold f) xss s"
  by (induction xss arbitrary: s) simp_all

lemma for_each_pure:
  assumes "\<And>i s. i \<in> set is \<Longrightarrow> body i s = Inr (g i s)"
  shows "for_each body is s = Inr (fold g is s)"
  using assms by (induction "is" arbitrary: s) simp_all

lemma build_histogram_fold:
  assumes "wf_pixels data"
  shows "build_histogram data = Inr (fold (sample_step data) (sample_points data) [])"
proof -
  let ?xs = "for_range 0 (width data) (sampleStep data)"
  let ?ys = "for_range 0 (height data) (sampleStep data)"
  have inner: "for_each (\<lambda>x. sample_pixel data y x) ?xs cc
      = Inr (fold (\<lambda>x. sample_step data (y, x)) ?xs cc)" if "y \<in> set ?ys" for y cc
  proof (rule for_each_pure)
    fix x s assume "x \<in> set ?xs"
    then have "0 \<le> x" "x < width data" by (auto dest: for_range_bounds)
    moreover from that have "0 \<le> y" "y < height data" by (auto dest: for_range_bounds)
    ultimately show "sample_pixel data y x s = Inr (sample_step data (y, x) s)"
      using assms by (simp add: sample_pixel_in_range)
  qed
  have "build_histogram data
      = Inr (fold (\<lambda>y. fold (\<lambda>x. sample_step data (y, x)) ?xs) ?ys [])"
    unfolding build_histogram_def by (rule for_each_pure) (rule inner)
  also have "fold (\<lambda>y. fold (\<lambda>x. sample_step data (y, x)) ?xs) ?ys []
      = fold (sample_step data) (sample_points data) []"
    by (simp add: sample_points_def fold_concat_lists fold_map comp_def)
  finally show ?thesis .
qed

lemma fold_sample_step:
  "fold (sample_step data) ps h =
     (if 3 \<le> channels data then fold map_incr (map (color_at data) (filter (opaque_at data) ps)) h
      else h)"
  by (induction ps arbitrary: h) (simp_all add: sample_step_def)

lemma build_histogram_sampled:
  assumes "wf_pixels data"
  shows "build_histogram data = Inr (fold map_incr (sampled_colors data) [])"
  using build_histogram_fold [OF assms]
  by (simp add: fold_sample_step sampled_colors_def)

lemma keys_map_incr: "fst ` set (map_incr k h) = insert k (fst ` set h)"
  by (induction k h rule: map_incr.induct) auto

lemma sorted_map_incr:
  "sorted_wrt (<) (map fst h) \<Longrightarrow> sorted_wrt (<) (map fst (map_incr k h))"
proof (induction k h rule: map_incr.induct)
  case (1 k)
  show ?case by simp
next
  case (2 k k' n m)
  show ?case
  proof (cases "k = k'")
    case True
    with 2 show ?thesis by simp
  next
    case False
    show ?thesis
    proof (cases "k < k'")
      case True
      with False "2.prems" show ?thesis by (auto intro: less_trans)
    next
      case gt: False
      with False have "k' < k" by simp
      moreover from "2.prems" have "sorted_wrt (<) (map fst m)" by simp
      with "2.IH" False gt have "sorted_wrt (<) (map fst (map_incr k m))" by simp
      moreover have "fst ` set (map_incr k m) = insert k (fst ` set m)" by (rule keys_map_incr)
      ultimately show ?thesis using False gt "2.prems" by auto
    qed
  qed
qed

lemma map_of_sorted_miss:
  fixes h :: histogram
  shows "\<forall>k'\<in>fst ` set h. k < k' \<Longrightarrow> map_of h k = None"
  by (auto simp: map_of_eq_None_iff)

lemma hist_count_map_incr:
  "sorted_wrt (<) (map fst h) \<Longrightarrow>
     hist_count (map_incr k h) k' = hist_count h k' + (if k' = k then 1 else 0)"
proof (induction k h rule: map_incr.induct)
  case (1 k)
  show ?case by (simp add: hist_count_def)
next
  case (2 k k1 n m)
  show ?case
  proof (cases "k = k1")
    case True
    then show ?thesis by (simp add: hist_count_def)
  next
    case False
    show ?thesis
    proof (cases "k < k1")
      case True
      have "\<forall>k'\<in>fst ` set ((k1, n) # m). k < k'"
        using True "2.prems" by (auto intro: less_trans)
      then have "map_of ((k1, n) # m) k = None" by (rule map_of_sorted_miss)
      with True False show ?thesis by (simp add: hist_count_def)
    next
      case gt: False
      from "2.prems" have "sorted_wrt (<) (map fst m)" by simp
      with "2.IH" False gt
      have "hist_count (map_incr k m) k' = hist_count m k' + (if k' = k then 1 else 0)" by simp
      with False gt show ?thesis by (cases "k' = k") (auto simp: hist_count_def)
    qed
  qed
qed

lemma fold_map_incr:
  assumes "sorted_wrt (<) (map fst h)"
  shows "sorted_wrt (<) (map fst (fold map_incr xs h))"
    and "fst ` set (fold map_incr xs h) = fst ` set h \<union> set xs"
    and "hist_count (fold map_incr xs h) k = hist_count h k + int (count_list xs k)"
  using assms
proof (induction xs arbitrary: h)
  case Nil
  {
    case 1 then show ?case by simp
  next
    case 2 then show ?case by simp
  next
    case 3 then show ?case by simp
  }
next
  case (Cons x xs)
  {
    case 1
    then show ?case using Cons.IH(1) [of "map_incr x h"] by (simp add: sorted_map_incr)
  next
    case 2
    then show ?case using Cons.IH(2) [of "map_incr x h"]
      by (simp add: sorted_map_incr keys_map_incr)
  next
    case 3
    then show ?case using Cons.IH(3) [of "map_incr x h"]
      by (simp add: sorted_map_incr hist_count_map_incr)
  }
qed

lemma histogram_of_list:
  fixes xs :: "string list"
  defines "h \<equiv> fold map_incr xs []"
  shows "distinct (map fst h)" and "fst ` set h = set xs"
    and "\<And>k n. (k, n) \<in> set h \<Longrightarrow> n = int (count_list xs k)"
proof -
  have s: "sorted_wrt (<) (map fst h)" unfolding h_def by (rule fold_map_incr(1)) simp
  then show d: "distinct (map fst h)" by (simp add: strict_sorted_iff)
  show "fst ` set h = set xs" unfolding h_def by (subst fold_map_incr(2)) simp_all
  fix k n assume "(k, n) \<in> set h"
  with d have "map_of h k = Some n" by simp
  then have "hist_count h k = n" by (simp add: hist_count_def)
  moreover have "hist_count h k = int (count_list xs k)"
    unfolding h_def by (subst fold_map_incr(3)) (simp_all add: hist_count_def)
  ultimately show "n = int (count_list xs k)" by simp
qed

lemma quantize_props: "0 \<le> quantize p" "quantize p \<le> 255" "32 dvd quantize p"
proof -
  define a where "a = uint p"
  have u: "0 \<le> a" "a < 256" unfolding a_def using uint_bounded [of p] by simp_all
  then have q: "quantize p = a div 32 * 32"
    by (simp add: quantize_def signed_divide_int_def sgn_if a_def [symmetric])
  show "0 \<le> quantize p" "quantize p \<le> 255" "32 dvd quantize p"
    using u unfolding q by auto
qed

lemma color_at_channels:
  "\<exists>r g b. hexToRgb (color_at data p) = Inr (r, g, b) \<and> 32 dvd r \<and> 32 dvd g \<and> 32 dvd b"
  unfolding color_at_def
  using hexToRgb_rgbToHex_bytes quantize_props by blast

lemma sampled_colors_channels:
  assumes "c \<in> set (sampled_colors data)"
  shows "\<exists>r g b. hexToRgb c = Inr (r, g, b) \<and> 32 dvd r \<and> 32 dvd g \<and> 32 dvd b"
proof -
  from assms obtain p where "c = color_at data p"
    by (auto simp: sampled_colors_def split: if_splits)
  then show ?thesis using color_at_channels by simp
qed

lemma stable_sort_contract: "std_sort_contract by_count_desc stable_sort"
proof -
  have "sorted_wrt (\<lambda>a b. \<not> by_count_desc b a) (stable_sort xs)" for xs
  proof -
    have "sorted (map (\<lambda>p. - snd p) (stable_sort xs))" unfolding stable_sort_def by simp
    then show ?thesis
      by (simp add: sorted_map by_count_desc_def not_less)
  qed
  then show ?thesis by (simp add: std_sort_contract_def stable_sort_def)
qed

text \<open>
  The histogram is all that the sort sees, and it does not record the order of encounter:
  two buffers with the same pixels in a different order give the same result, whatever
  the sort.
\<close>

lemma extractDominantColors_order_blind:
  "extractDominantColors srt img_white_black n = extractDominantColors srt img_black_white n"
proof -
  have "build_histogram img_white_black = build_histogram img_black_white" by code_simp
  then show ?thesis by (simp add: extractDominantColors_def)
qed

lemma first_encounter_order_unreachable:
  "extractDominantColors srt img_white_black 2 \<noteq> Inr (spec_dominant_colors img_white_black 2)
   \<or> extractDominantColors srt img_black_white 2 \<noteq> Inr (spec_dominant_colors img_black_white 2)"
proof -
  have "spec_dominant_colors img_white_black 2 \<noteq> spec_dominant_colors img_black_white 2"
    by code_simp
  then show ?thesis using extractDominantColors_order_blind [of srt 2] by auto
qed

text \<open>
  Claim C2, as amended: for every well-formed \<^verbatim>\<open>PixelData\<close> buffer and requested count
  \<open>N\<close>, and whatever order \<^verbatim>\<open>std::sort\<close> leaves equivalent elements in,
  \<^verbatim>\<open>extractDominantColors\<close> returns at most \<open>N\<close> colours (none when \<open>N \<le> 0\<close>) and at most
  as many as there are distinct quantized colours among the sampled pixels, exactly the
  smaller of the two numbers; the colours are distinct quantized colours of the buffer;
  the R, G and B channels of each are multiples of 32; and the colours are in order of
  non-increasing frequency. The order among colours of equal frequency is not part of the
  statement.
\<close>

theorem extractDominantColors_ranked:
  assumes "std_sort_contract by_count_desc srt" "wf_pixels data"
  shows "\<exists>cs. extractDominantColors srt data numColors = Inr cs
          \<and> length cs \<le> nat numColors \<and> length cs \<le> card (quantized_colors data)
          \<and> length cs = min (nat numColors) (card (quantized_colors data))
          \<and> distinct cs \<and> set cs \<subseteq> quantized_colors data
          \<and> (\<forall>c\<in>set cs. \<exists>r g b. hexToRgb c = Inr (r, g, b) \<and> 32 dvd r \<and> 32 dvd g \<and> 32 dvd b)
          \<and> sorted_wrt (\<lambda>a b. frequency data a \<ge> frequency data b) cs"
proof -
  let ?xs = "sampled_colors data"
  define h where "h = fold map_incr ?xs []"
  define sorted where "sorted = srt h"
  define cs where "cs = map fst (take (nat numColors) sorted)"
  note hp = histogram_of_list [where xs = "?xs", folded h_def]
  from assms(1) have perm: "mset sorted = mset h"
    and ord: "sorted_wrt (\<lambda>a b. \<not> by_count_desc b a) sorted"
    by (simp_all add: std_sort_contract_def sorted_def)
  have set_eq: "set sorted = set h" using perm by (rule mset_eq_setD)
  have "mset (map fst sorted) = mset (map fst h)" using perm by simp
  then have "distinct (map fst sorted) \<longleftrightarrow> distinct (map fst h)"
    by (rule mset_eq_imp_distinct_iff)
  then have dist: "distinct (map fst sorted)" using hp(1) by blast
  have len: "length sorted = card (quantized_colors data)"
  proof -
    have "length sorted = length h" using perm by (rule mset_eq_length)
    also have "\<dots> = card (set (map fst h))" using hp(1) by (metis distinct_card length_map)
    also have "\<dots> = card (quantized_colors data)" using hp(2) by (simp add: quantized_colors_def)
    finally show ?thesis .
  qed
  have res: "extractDominantColors srt data numColors = Inr cs"
    by (simp add: extractDominantColors_def build_histogram_sampled [OF assms(2)] cs_def
        sorted_def h_def)
  have cs_take: "cs = take (nat numColors) (map fst sorted)" by (simp add: cs_def take_map)
  have l: "length cs = min (nat numColors) (card (quantized_colors data))"
    by (simp add: cs_def len min.commute)
  have d: "distinct cs" unfolding cs_take using dist by (rule distinct_take)
  have sub: "set cs \<subseteq> quantized_colors data"
  proof -
    have "set cs \<subseteq> set (map fst sorted)" unfolding cs_take by (rule set_take_subset)
    also have "\<dots> = quantized_colors data" using set_eq hp(2) by (simp add: quantized_colors_def)
    finally show ?thesis .
  qed
  have ch: "\<forall>c\<in>set cs. \<exists>r g b. hexToRgb c = Inr (r, g, b) \<and> 32 dvd r \<and> 32 dvd g \<and> 32 dvd b"
    using sub sampled_colors_channels by (auto simp: quantized_colors_def)
  have freq: "snd e = frequency data (fst e)" if "e \<in> set sorted" for e
    using that hp(3) [of "fst e" "snd e"] set_eq by (simp add: frequency_def)
  have "sorted_wrt (\<lambda>a b. frequency data (fst a) \<ge> frequency data (fst b)) sorted"
    using ord
  proof (rule sorted_wrt_mono_rel [rotated])
    fix a b assume "a \<in> set sorted" "b \<in> set sorted" "\<not> by_count_desc b a"
    then show "frequency data (fst b) \<le> frequency data (fst a)"
      using freq [of a] freq [of b] by (simp add: by_count_desc_def)
  qed
  then have "sorted_wrt (\<lambda>a b. frequency data a \<ge> frequency data b) (map fst sorted)"
    by (simp add: sorted_wrt_map)
  then have o: "sorted_wrt (\<lambda>a b. frequency data a \<ge> frequency data b) cs"
    unfolding cs_take by (rule sorted_wrt_take)
  from res l d sub ch o show ?thesis by auto
qed

theorem extractDominantColors_ranked_witness:
  "wf_pixels img_white_white_red
   \<and> sampled_colors img_white_white_red = [''#e0e0e0'', ''#e0e0e0'', ''#e00000'']
   \<and> extractDominantColors stable_sort img_white_white_red 5 = Inr [''#e0e0e0'', ''#e00000'']
   \<and> (\<exists>cs. extractDominantColors stable_sort img_white_white_red 5 = Inr cs
          \<and> length cs \<le> nat 5 \<and> length cs \<le> card (quantized_colors img_white_white_red)
          \<and> length cs = min (nat 5) (card (quantized_colors img_white_white_red))
          \<and> distinct cs \<and> set cs \<subseteq> quantized_colors img_white_white_red
          \<and> (\<forall>c\<in>set cs. \<exists>r g b. hexToRgb c = Inr (r, g, b) \<and> 32 dvd r \<and> 32 dvd g \<and> 32 dvd b)
          \<and> sorted_wrt (\<lambda>a b. frequency img_white_white_red a \<ge> frequency img_white_white_red b) cs)"
proof -
  have wf: "wf_pixels img_white_white_red"
    by (simp add: wf_pixels_def img_white_white_red_def)
  have sc: "sampled_colors img_white_white_red = [''#e0e0e0'', ''#e0e0e0'', ''#e00000'']"
    by code_simp
  have ex: "extractDominantColors stable_sort img_white_white_red 5 = Inr [''#e0e0e0'', ''#e00000'']"
    by code_simp
  from extractDominantColors_ranked [OF stable_sort_contract wf, of 5] wf sc ex
  show ?thesis by blast
qed

text \<open>
  The claim as stated fails on ties. In a row of a white and a black pixel both colours
  occur once and white is met first, but the \<^verbatim>\<open>std::map\<close> hands the colours to the sort
  in ascending key order, so black comes first. (Whatever the sort does with the tie, it
  does the same for the row with the two pixels exchanged, by
  \<open>first_encounter_order_unreachable\<close>.)
\<close>

theorem extractDominantColors_tie_order:
  "extractDominantColors stable_sort img_white_black 2 = Inr [''#000000'', ''#e0e0e0'']
   \<and> first_encounter_order img_white_black = [''#e0e0e0'', ''#000000'']
   \<and> frequency img_white_black ''#000000'' = 1 \<and> frequency img_white_black ''#e0e0e0'' = 1
   \<and> spec_dominant_colors img_white_black 2 = [''#e0e0e0'', ''#000000'']"
  by code_simp

subsection \<open>The background colour in \<^verbatim>\<open>inspectImage\<close>\<close>

lemma inspectImage_palette:
  assumes "extractDominantColors srt data 5 = Inr (p0 # rest)"
  shows "inspectImage srt data =
     (case drop_background (p0 # rest) of Inl e \<Rightarrow> Inl e | Inr working \<Rightarrow> options_of_palette working)"
  using assms by (simp add: inspectImage_def)

text \<open>
  Claim C5, as amended: in \<^verbatim>\<open>inspectImage\<close>, when the most frequent extracted colour is
  near-white (all three channels above 200), that colour is dropped from the working
  palette if and only if the palette holds more than one colour before the drop, that is,
  if at least one colour remains after it; a palette that consists of the near-white
  colour alone is kept. The options are then computed from that working palette.
\<close>

theorem inspectImage_drops_background:
  assumes "extractDominantColors srt data 5 = Inr (p0 # rest)"
    and "hexToRgb p0 = Inr rgb" "near_white rgb"
  shows "drop_background (p0 # rest) = Inr (if rest = [] then [p0] else rest)
       \<and> inspectImage srt data = options_of_palette (if rest = [] then [p0] else rest)"
proof -
  have d: "drop_background (p0 # rest) = Inr (if rest = [] then [p0] else rest)"
    using assms(2,3) by (cases rest) (simp_all add: drop_background_def)
  then show ?thesis using inspectImage_palette [OF assms(1)] by simp
qed

theorem inspectImage_drops_background_witness:
  "extractDominantColors stable_sort img_white_white_red 5 = Inr [''#e0e0e0'', ''#e00000'']
   \<and> hexToRgb ''#e0e0e0'' = Inr (224, 224, 224) \<and> near_white (224, 224, 224)
   \<and> drop_background [''#e0e0e0'', ''#e00000'']
       = Inr (if [''#e00000''] = [] then [''#e0e0e0''] else [''#e00000''])
   \<and> inspectImage stable_sort img_white_white_red
       = options_of_palette (if [''#e00000''] = [] then [''#e0e0e0''] else [''#e00000''])"
proof -
  have ex: "extractDominantColors stable_sort img_white_white_red 5 = Inr [''#e0e0e0'', ''#e00000'']"
    by code_simp
  have h: "hexToRgb ''#e0e0e0'' = Inr (224, 224, 224)" by code_simp
  have w: "near_white (224, 224, 224)" by (simp add: near_white_def)
  from inspectImage_drops_background [OF ex h w] ex h w show ?thesis by blast
qed

text \<open>
  The claim as stated fails on a palette of two colours: the near-white colour is dropped
  although only one colour remains after the drop.
\<close>

theorem inspectImage_two_colour_palette:
  "extractDominantColors stable_sort img_white_white_red 5 = Inr [''#e0e0e0'', ''#e00000'']
   \<and> hexToRgb ''#e0e0e0'' = Inr (224, 224, 224) \<and> near_white (224, 224, 224)
   \<and> drop_background [''#e0e0e0'', ''#e00000''] = Inr [''#e00000'']
   \<and> \<not> 1 < length [''#e00000'']
   \<and> inspectImage stable_sort img_white_white_red = Inr [\<lparr>step = 1, colors = [''#e00000'']\<rparr>]"
  by code_simp

subsection \<open>Rounding to single precision\<close>


lemma two_powi_pos [simp]: "0 < (2::rat) powi e"
  by simp

lemma two_powi_Suc: "(2::rat) powi (e + 1) = 2 * 2 powi e"
  by (simp add: power_int_add_1')

lemma two_powi_pred: "2 * (2::rat) powi (e - 1) = 2 powi e"
  using two_powi_Suc [of "e - 1"] by simp

lemma two_powi_less_exp: "(2::rat) powi m \<le> x \<Longrightarrow> x < 2 powi n \<Longrightarrow> m < n"
proof (rule ccontr)
  assume a: "2 powi m \<le> x" "x < 2 powi n" and "\<not> m < n"
  then have "(2::rat) powi n \<le> 2 powi m" by (intro power_int_increasing) simp_all
  with a show False by simp
qed

lemma norm_down_le: "norm_down e a \<le> e"
proof (induction e a rule: norm_down.induct)
  case (1 e a)
  show ?case
  proof (cases "1 \<le> a \<or> e \<le> - 126")
    case True
    then show ?thesis by (subst norm_down.simps) simp
  next
    case False
    with 1 have "norm_down (e - 1) (2 * a) \<le> e - 1" by simp
    with False show ?thesis by (subst norm_down.simps) simp
  qed
qed

lemma norm_down_ge: "- 126 \<le> e \<Longrightarrow> - 126 \<le> norm_down e a"
proof (induction e a rule: norm_down.induct)
  case (1 e a)
  show ?case
  proof (cases "1 \<le> a \<or> e \<le> - 126")
    case True
    with "1.prems" show ?thesis by (subst norm_down.simps) simp
  next
    case False
    with 1 have "- 126 \<le> norm_down (e - 1) (2 * a)" by simp
    with False show ?thesis by (subst norm_down.simps) simp
  qed
qed

lemma norm_down_upper:
  "0 \<le> a \<Longrightarrow> a < 2 \<Longrightarrow> a * 2 powi e < 2 powi (norm_down e a + 1)"
proof (induction e a rule: norm_down.induct)
  case (1 e a)
  show ?case
  proof (cases "1 \<le> a \<or> e \<le> - 126")
    case True
    then have "norm_down e a = e" by (subst norm_down.simps) simp
    moreover have "a * 2 powi e < 2 * 2 powi e" using "1.prems" by simp
    ultimately show ?thesis by (simp add: two_powi_Suc)
  next
    case False
    then have r: "norm_down e a = norm_down (e - 1) (2 * a)" by (subst norm_down.simps) simp
    from False "1.prems" have "2 * a * 2 powi (e - 1) < 2 powi (norm_down (e - 1) (2 * a) + 1)"
      by (intro "1.IH") simp_all
    moreover have "2 * a * 2 powi (e - 1) = a * 2 powi e"
      using two_powi_pred [of e] by (simp add: mult.assoc mult.left_commute)
    ultimately show ?thesis by (simp add: r)
  qed
qed

lemma norm_down_lower:
  "- 126 < norm_down e a \<Longrightarrow> 2 powi (norm_down e a) \<le> a * 2 powi e"
proof (induction e a rule: norm_down.induct)
  case (1 e a)
  show ?case
  proof (cases "1 \<le> a \<or> e \<le> - 126")
    case True
    then have r: "norm_down e a = e" by (subst norm_down.simps) simp
    with "1.prems" True have "1 \<le> a" by simp
    then have "1 * 2 powi e \<le> a * 2 powi e" by (intro mult_right_mono) simp_all
    then show ?thesis by (simp add: r)
  next
    case False
    then have r: "norm_down e a = norm_down (e - 1) (2 * a)" by (subst norm_down.simps) simp
    from False "1.prems" r have "2 powi (norm_down (e - 1) (2 * a)) \<le> 2 * a * 2 powi (e - 1)"
      by (intro "1.IH") simp_all
    moreover have "2 * a * 2 powi (e - 1) = a * 2 powi e"
      using two_powi_pred [of e] by (simp add: mult.assoc mult.left_commute)
    ultimately show ?thesis by (simp add: r)
  qed
qed

lemma norm_up_bounds: "e \<le> 127 \<Longrightarrow> e \<le> norm_up e a \<and> norm_up e a \<le> 127"
proof (induction e a rule: norm_up.induct)
  case (1 e a)
  show ?case
  proof (cases "a < 2 \<or> 127 \<le> e")
    case True
    with "1.prems" show ?thesis by (subst norm_up.simps, subst norm_up.simps) simp
  next
    case False
    with 1 have "e + 1 \<le> norm_up (e + 1) (a / 2) \<and> norm_up (e + 1) (a / 2) \<le> 127" by simp
    with False show ?thesis by (subst norm_up.simps, subst norm_up.simps) simp
  qed
qed

lemma norm_up_lower: "1 \<le> a \<Longrightarrow> 2 powi (norm_up e a) \<le> a * 2 powi e"
proof (induction e a rule: norm_up.induct)
  case (1 e a)
  show ?case
  proof (cases "a < 2 \<or> 127 \<le> e")
    case True
    then have r: "norm_up e a = e" by (subst norm_up.simps) simp
    from "1.prems" have "1 * 2 powi e \<le> a * 2 powi e" by (intro mult_right_mono) simp_all
    then show ?thesis by (simp add: r)
  next
    case False
    then have r: "norm_up e a = norm_up (e + 1) (a / 2)" by (subst norm_up.simps) simp
    from False have "2 powi (norm_up (e + 1) (a / 2)) \<le> a / 2 * 2 powi (e + 1)"
      by (intro "1.IH") simp_all
    then show ?thesis by (simp add: r two_powi_Suc)
  qed
qed

lemma norm_up_upper:
  "norm_up e a < 127 \<Longrightarrow> a * 2 powi e < 2 powi (norm_up e a + 1)"
proof (induction e a rule: norm_up.induct)
  case (1 e a)
  show ?case
  proof (cases "a < 2 \<or> 127 \<le> e")
    case True
    then have r: "norm_up e a = e" by (subst norm_up.simps) simp
    with "1.prems" True have "a < 2" by simp
    then have "a * 2 powi e < 2 * 2 powi e" by simp
    then show ?thesis by (simp add: r two_powi_Suc)
  next
    case False
    then have r: "norm_up e a = norm_up (e + 1) (a / 2)" by (subst norm_up.simps) simp
    from False "1.prems" r have "a / 2 * 2 powi (e + 1) < 2 powi (norm_up (e + 1) (a / 2) + 1)"
      by (intro "1.IH") simp_all
    then show ?thesis by (simp add: r two_powi_Suc)
  qed
qed

lemma binade_range: "- 126 \<le> binade x \<and> binade x \<le> 127"
  using norm_up_bounds [of 0 "\<bar>x\<bar>"] norm_down_le [of 0 "\<bar>x\<bar>"] norm_down_ge [of 0 "\<bar>x\<bar>"]
  by (auto simp: binade_def)

lemma binade_lower: "- 126 < binade x \<Longrightarrow> 2 powi (binade x) \<le> \<bar>x\<bar>"
  using norm_up_lower [of "\<bar>x\<bar>" 0] norm_down_lower [of 0 "\<bar>x\<bar>"]
  by (auto simp: binade_def split: if_splits)

lemma binade_upper: "binade x < 127 \<Longrightarrow> \<bar>x\<bar> < 2 powi (binade x + 1)"
  using norm_up_upper [of 0 "\<bar>x\<bar>"] norm_down_upper [of "\<bar>x\<bar>" 0]
  by (auto simp: binade_def split: if_splits)

lemma binade_eq:
  assumes "2 powi e \<le> \<bar>x\<bar>" "\<bar>x\<bar> < 2 powi (e + 1)" "- 126 \<le> e" "e \<le> 127"
  shows "binade x = e"
proof -
  note r = binade_range [of x]
  have "binade x < e + 1"
  proof (cases "- 126 < binade x")
    case True
    from binade_lower [OF True] assms(2) show ?thesis by (rule two_powi_less_exp)
  next
    case False
    with r assms(3) show ?thesis by simp
  qed
  moreover have "e < binade x + 1"
  proof (cases "binade x < 127")
    case True
    from assms(1) binade_upper [OF True] show ?thesis by (rule two_powi_less_exp)
  next
    case False
    with r assms(4) show ?thesis by simp
  qed
  ultimately show ?thesis by simp
qed

lemma binade_tiny:
  assumes "\<bar>x\<bar> < 2 powi (- 126)"
  shows "binade x = - 126"
proof (rule ccontr)
  assume "binade x \<noteq> - 126"
  with binade_range [of x] have g: "- 126 < binade x" by simp
  from binade_lower [OF g] assms have "binade x < - 126" by (rule two_powi_less_exp)
  with g show False by simp
qed

lemma binade_lt_one:
  assumes "\<bar>x\<bar> < 1"
  shows "binade x \<le> - 1"
proof -
  have "binade x = norm_down 0 \<bar>x\<bar>" using assms by (simp add: binade_def)
  also have "\<dots> = norm_down (- 1) (2 * \<bar>x\<bar>)" using assms by (subst norm_down.simps) simp
  also have "\<dots> \<le> - 1" by (rule norm_down_le)
  finally show ?thesis .
qed

lemma round_half_even_cases:
  "round_half_even q = \<lfloor>q\<rfloor> \<and> q - of_int \<lfloor>q\<rfloor> \<le> 1 / 2
   \<or> round_half_even q = \<lfloor>q\<rfloor> + 1 \<and> 1 / 2 \<le> q - of_int \<lfloor>q\<rfloor>"
  by (auto simp: round_half_even_def Let_def)

lemma round_half_even_error: "\<bar>of_int (round_half_even q) - q\<bar> \<le> 1 / 2"
proof -
  have f: "of_int \<lfloor>q\<rfloor> \<le> q" "q < of_int \<lfloor>q\<rfloor> + 1" by linarith+
  from round_half_even_cases [of q] show ?thesis
  proof (elim disjE conjE)
    assume a: "round_half_even q = \<lfloor>q\<rfloor>" "q - of_int \<lfloor>q\<rfloor> \<le> 1 / 2"
    have "(of_int (round_half_even q) :: rat) = of_int \<lfloor>q\<rfloor>" by (simp only: a(1))
    with a(2) f show ?thesis by linarith
  next
    assume a: "round_half_even q = \<lfloor>q\<rfloor> + 1" "1 / 2 \<le> q - of_int \<lfloor>q\<rfloor>"
    have "(of_int (round_half_even q) :: rat) = of_int \<lfloor>q\<rfloor> + 1"
      by (simp only: a(1) of_int_add of_int_1)
    with a(2) f show ?thesis by linarith
  qed
qed

lemma round_half_even_of_int [simp]: "round_half_even (of_int n) = n"
  by (simp add: round_half_even_def)

lemma round_half_even_nonneg: "0 \<le> q \<Longrightarrow> 0 \<le> round_half_even q"
  using round_half_even_cases [of q] by (auto simp: zero_le_floor)

lemma round_half_even_le:
  assumes "q \<le> of_int n"
  shows "round_half_even q \<le> n"
proof -
  from round_half_even_cases [of q] show ?thesis
  proof (elim disjE conjE)
    assume "round_half_even q = \<lfloor>q\<rfloor>"
    moreover have "\<lfloor>q\<rfloor> \<le> n" using assms by (simp add: floor_le_iff)
    ultimately show ?thesis by simp
  next
    assume r: "round_half_even q = \<lfloor>q\<rfloor> + 1" and h: "1 / 2 \<le> q - of_int \<lfloor>q\<rfloor>"
    then have "of_int \<lfloor>q\<rfloor> < q" by simp
    with assms have "(of_int \<lfloor>q\<rfloor> :: rat) < of_int n" by simp
    then have "\<lfloor>q\<rfloor> < n" by simp
    with r show ?thesis by simp
  qed
qed

lemma round_half_even_nearest:
  assumes "\<bar>q - of_int n\<bar> < 1 / 2"
  shows "round_half_even q = n"
proof -
  have "\<bar>(of_int (round_half_even q) :: rat) - of_int n\<bar> < 1"
    using round_half_even_error [of q] assms by linarith
  then have "\<bar>(of_int (round_half_even q - n) :: rat)\<bar> < 1" by simp
  then have "\<bar>round_half_even q - n\<bar> < 1" by (metis of_int_abs of_int_less_1_iff)
  then show ?thesis by simp
qed

text \<open>A multiple of \<open>2\<^sup>k\<close> with a significand below \<open>2\<^sup>2\<^sup>4\<close> is a binary32 number.\<close>

lemma round32_exact:
  assumes x: "x = of_int m * 2 powi k" and m: "\<bar>m\<bar> < 2 ^ 24" and k: "- 149 \<le> k"
  shows "round32 x = x"
proof -
  let ?e = "binade x"
  have e: "?e \<le> k + 23"
  proof (cases "- 126 < ?e")
    case True
    have "\<bar>x\<bar> = of_int \<bar>m\<bar> * 2 powi k" by (simp add: x abs_mult)
    also have "\<dots> < 2 ^ 24 * 2 powi k"
    proof (rule mult_strict_right_mono)
      have "(of_int \<bar>m\<bar> :: rat) < of_int (2 ^ 24)" using m by (simp only: of_int_less_iff)
      then show "(of_int \<bar>m\<bar> :: rat) < 2 ^ 24" by simp
    qed simp
    also have "\<dots> = 2 powi (k + 24)" by (subst power_int_add) simp_all
    finally have "\<bar>x\<bar> < 2 powi (k + 24)" .
    with binade_lower [OF True] have "?e < k + 24" by (rule two_powi_less_exp)
    then show ?thesis by simp
  next
    case False
    with binade_range [of x] k show ?thesis by simp
  qed
  define j where "j = nat (k + 23 - ?e)"
  have j: "int j = k + 23 - ?e" using e by (simp add: j_def)
  have "x / 2 powi (?e - 23) = of_int m * (2 powi k / 2 powi (?e - 23))" by (simp add: x)
  also have "2 powi k / 2 powi (?e - 23) = (2::rat) powi (k - (?e - 23))"
    by (subst power_int_diff) simp_all
  also have "k - (?e - 23) = int j" using j by simp
  finally have q: "x / 2 powi (?e - 23) = of_int (m * 2 ^ j)" by simp
  have "round_half_even (x / 2 powi (?e - 23)) = m * 2 ^ j"
    unfolding q by (rule round_half_even_of_int)
  then have "round32 x = of_int (m * 2 ^ j) * 2 powi (?e - 23)"
    by (simp only: round32_def Let_def)
  also have "\<dots> = x / 2 powi (?e - 23) * 2 powi (?e - 23)" by (simp only: q)
  also have "\<dots> = x" by simp
  finally show ?thesis .
qed

lemma round32_int: "\<bar>m\<bar> < 2 ^ 24 \<Longrightarrow> round32 (of_int m) = of_int m"
  by (rule round32_exact [where m = m and k = 0]) simp_all

lemma to_float_exact:
  assumes "x = of_int m * 2 powi k" "\<bar>m\<bar> < 2 ^ 24" "- 149 \<le> k" "\<bar>x\<bar> < 2 ^ 128"
  shows "to_float x = Finite x"
  using round32_exact [OF assms(1-3)] assms(4) by (simp add: to_float_def)

lemma to_float_0 [simp]: "to_float 0 = Finite 0"
  by (rule to_float_exact [where m = 0 and k = 0]) simp_all

lemma to_float_1 [simp]: "to_float 1 = Finite 1"
  by (rule to_float_exact [where m = 1 and k = 0]) simp_all

lemma to_float_255 [simp]: "to_float 255 = Finite 255"
  by (rule to_float_exact [where m = 255 and k = 0]) simp_all

lemma float_of_int_small [simp]:
  "float_of_int 0 = Finite 0" "float_of_int 1 = Finite 1" "float_of_int 255 = Finite 255"
  by (simp_all add: float_of_int_def)

text \<open>Rounding a number of the unit interval.\<close>

lemma round32_unit:
  assumes "0 \<le> x" "x \<le> 1"
  shows "0 \<le> round32 x" and "round32 x \<le> 1" and "\<bar>round32 x - x\<bar> \<le> 1 / 2 ^ 25"
proof -
  let ?u = "(2::rat) powi (binade x - 23)"
  let ?n = "round_half_even (x / ?u)"
  have r: "round32 x = of_int ?n * ?u" by (simp add: round32_def Let_def)
  have n0: "0 \<le> ?n" using assms(1) by (intro round_half_even_nonneg) simp
  then show "0 \<le> round32 x" unfolding r by simp
  show "round32 x \<le> 1" "\<bar>round32 x - x\<bar> \<le> 1 / 2 ^ 25"
  proof -
    have "round32 x \<le> 1 \<and> \<bar>round32 x - x\<bar> \<le> 1 / 2 ^ 25"
    proof (cases "x = 1")
      case True
      then show ?thesis using round32_int [of 1] by simp
    next
      case False
      with assms have lt: "\<bar>x\<bar> < 1" by simp
      then have e: "binade x \<le> - 1" by (rule binade_lt_one)
      then have "\<bar>x\<bar> < 2 powi (binade x + 1)" by (intro binade_upper) simp
      then have "x < 2 powi (binade x + 1)" by simp
      then have "x / ?u < 2 powi (binade x + 1) / ?u" by (simp add: divide_strict_right_mono)
      also have "2 powi (binade x + 1) / ?u = (2::rat) powi (binade x + 1 - (binade x - 23))"
        by (subst power_int_diff) simp_all
      also have "\<dots> = of_int (2 ^ 24)" by simp
      finally have "?n \<le> 2 ^ 24" by (intro round_half_even_le) simp
      then have "(of_int ?n :: rat) \<le> of_int (2 ^ 24)" by (simp only: of_int_le_iff)
      then have "of_int ?n * ?u \<le> 2 ^ 24 * ?u" by (intro mult_right_mono) simp_all
      also have "2 ^ 24 * ?u = (2::rat) powi (24 + (binade x - 23))"
        by (subst power_int_add) simp_all
      also have "\<dots> \<le> 2 powi 0" using e by (intro power_int_increasing) simp_all
      finally have le1: "round32 x \<le> 1" by (simp add: r)
      have u: "?u \<le> 1 / 2 ^ 24"
      proof -
        have "?u \<le> 2 powi (- 24)" using e by (intro power_int_increasing) simp_all
        then show ?thesis by (simp add: power_int_minus_divide)
      qed
      have "of_int ?n * ?u - x = (of_int ?n - x / ?u) * ?u" by (simp add: left_diff_distrib)
      then have "\<bar>round32 x - x\<bar> = \<bar>of_int ?n - x / ?u\<bar> * \<bar>?u\<bar>"
        by (simp only: r abs_mult)
      also have "\<bar>?u\<bar> = ?u" by simp
      finally have "\<bar>round32 x - x\<bar> = \<bar>of_int ?n - x / ?u\<bar> * ?u" .
      also have "\<dots> \<le> 1 / 2 * ?u"
        using round_half_even_error [of "x / ?u"] by (intro mult_right_mono) simp_all
      also have "\<dots> \<le> 1 / 2 * (1 / 2 ^ 24)" using u by simp
      finally have "\<bar>round32 x - x\<bar> \<le> 1 / 2 ^ 25" by simp
      with le1 show ?thesis by simp
    qed
    then show "round32 x \<le> 1" "\<bar>round32 x - x\<bar> \<le> 1 / 2 ^ 25" by simp_all
  qed
qed

lemma to_float_unit:
  assumes "0 \<le> x" "x \<le> 1"
  shows "to_float x = Finite (round32 x)"
proof -
  have "\<bar>round32 x\<bar> \<le> 1" using round32_unit(1,2) [OF assms] by simp
  also have "(1::rat) < 2 ^ 128" by simp
  finally show ?thesis by (simp add: to_float_def)
qed

lemma combineOpacity_Finite:
  assumes "0 \<le> a" "a \<le> 1" "0 \<le> b" "b \<le> 1"
  shows "combineOpacity (Finite a) (Finite b)
       = Finite (round32 (1 - round32 (round32 (1 - a) * round32 (1 - b))))"
    and "0 \<le> round32 (round32 (1 - a) * round32 (1 - b))"
    and "round32 (round32 (1 - a) * round32 (1 - b)) \<le> 1"
proof -
  let ?x = "round32 (1 - a)" and ?y = "round32 (1 - b)"
  have x: "0 \<le> ?x" "?x \<le> 1" using round32_unit(1,2) [of "1 - a"] assms by simp_all
  have y: "0 \<le> ?y" "?y \<le> 1" using round32_unit(1,2) [of "1 - b"] assms by simp_all
  have xy: "0 \<le> ?x * ?y" "?x * ?y \<le> 1"
    using x y by (simp_all add: mult_le_one)
  show p: "0 \<le> round32 (?x * ?y)" "round32 (?x * ?y) \<le> 1"
    using round32_unit(1,2) [OF xy] by simp_all
  have "fsub (Finite 1) (Finite a) = Finite ?x" using assms by (simp add: to_float_unit)
  moreover have "fsub (Finite 1) (Finite b) = Finite ?y" using assms by (simp add: to_float_unit)
  moreover have "fmul (Finite ?x) (Finite ?y) = Finite (round32 (?x * ?y))"
    using xy by (simp add: to_float_unit)
  moreover have "fsub (Finite 1) (Finite (round32 (?x * ?y)))
      = Finite (round32 (1 - round32 (?x * ?y)))"
    using p by (simp add: to_float_unit)
  ultimately show "combineOpacity (Finite a) (Finite b)
       = Finite (round32 (1 - round32 (?x * ?y)))"
    by (simp add: combineOpacity_def)
qed

lemma combineOpacity_bounds:
  assumes "0 \<le> a" "a \<le> 1" "0 \<le> b" "b \<le> 1"
  shows "\<exists>c. combineOpacity (Finite a) (Finite b) = Finite c \<and> 0 \<le> c \<and> c \<le> 1
           \<and> max a b - 1 / 2 ^ 23 \<le> c"
proof -
  let ?d = "(1::rat) / 2 ^ 25"
  let ?x = "round32 (1 - a)" and ?y = "round32 (1 - b)"
  let ?p = "round32 (?x * ?y)"
  let ?c = "round32 (1 - ?p)"
  note cf = combineOpacity_Finite [OF assms]
  have x: "0 \<le> ?x" "?x \<le> 1" "\<bar>?x - (1 - a)\<bar> \<le> ?d"
    using round32_unit [of "1 - a"] assms by simp_all
  have y: "0 \<le> ?y" "?y \<le> 1" "\<bar>?y - (1 - b)\<bar> \<le> ?d"
    using round32_unit [of "1 - b"] assms by simp_all
  have xy: "0 \<le> ?x * ?y" "?x * ?y \<le> 1" using x y by (simp_all add: mult_le_one)
  have p: "\<bar>?p - ?x * ?y\<bar> \<le> ?d" using round32_unit(3) [OF xy] .
  have c: "0 \<le> ?c" "?c \<le> 1" "\<bar>?c - (1 - ?p)\<bar> \<le> ?d"
    using round32_unit [of "1 - ?p"] cf(2,3) by simp_all
  have "?x * ?y - (1 - a) * (1 - b) = ?x * (?y - (1 - b)) + (1 - b) * (?x - (1 - a))"
    by (simp add: algebra_simps)
  moreover have "?x * (?y - (1 - b)) \<le> 1 * ?d"
  proof -
    have "?y - (1 - b) \<le> ?d" using y(3) by linarith
    then have "?x * (?y - (1 - b)) \<le> ?x * ?d" using x(1) by (rule mult_left_mono)
    also have "\<dots> \<le> 1 * ?d" using x(2) by (intro mult_right_mono) simp_all
    finally show ?thesis .
  qed
  moreover have "(1 - b) * (?x - (1 - a)) \<le> 1 * ?d"
  proof -
    have "?x - (1 - a) \<le> ?d" using x(3) by linarith
    moreover have "0 \<le> 1 - b" using assms by simp
    ultimately have "(1 - b) * (?x - (1 - a)) \<le> (1 - b) * ?d" by (rule mult_left_mono)
    also have "\<dots> \<le> 1 * ?d" using assms by (intro mult_right_mono) simp_all
    finally show ?thesis .
  qed
  ultimately have prod: "?x * ?y \<le> (1 - a) * (1 - b) + 2 * ?d" by simp
  have "(1 - a) * (1 - b) \<le> (1 - a) * 1" using assms by (intro mult_left_mono) simp_all
  moreover have "(1 - a) * (1 - b) \<le> 1 * (1 - b)" using assms by (intro mult_right_mono) simp_all
  ultimately have "max a b \<le> 1 - (1 - a) * (1 - b)" by simp
  with prod p c(3) have "max a b - 4 * ?d \<le> ?c" by linarith
  then have "max a b - 1 / 2 ^ 23 \<le> ?c" by simp
  with cf(1) c(1,2) show ?thesis by blast
qed

lemma round32_below_one: "round32 (1 - 2 powi (- 100)) = 1"
proof -
  let ?x = "1 - (2::rat) powi (- 100)"
  have v: "(2::rat) powi (- 100) = 1 / 2 ^ 100" by (simp add: power_int_minus_divide)
  have "binade ?x = - 1"
    by (rule binade_eq) (simp_all add: v power_int_minus_divide)
  then have "round32 ?x = of_int (round_half_even (?x / 2 powi (- 24))) * 2 powi (- 24)"
    by (simp add: round32_def)
  moreover have "round_half_even (?x / 2 powi (- 24)) = 2 ^ 24"
    by (rule round_half_even_nearest) (simp add: v power_int_minus_divide)
  ultimately show ?thesis by (simp add: power_int_minus_divide)
qed

lemma combineOpacity_tiny: "combineOpacity (Finite (2 powi (- 100))) (Finite 0) = Finite 0"
proof -
  have "to_float (1 - 2 powi (- 100)) = Finite 1"
    unfolding to_float_def Let_def round32_below_one by simp
  then have "fsub (Finite 1) (Finite (2 powi (- 100))) = Finite 1"
    by (simp only: fsub.simps)
  moreover have "fsub (Finite 1) (Finite 0) = Finite 1" by simp
  ultimately show ?thesis
    unfolding combineOpacity_def float_of_int_small by (simp only: fmul.simps fsub.simps) simp
qed

lemma tiny_is_float: "round32 (2 powi (- 100)) = 2 powi (- 100)"
  by (rule round32_exact [where m = 1 and k = "- 100"]) simp_all


text \<open>
  Claim C9, as amended: for all \<^verbatim>\<open>float\<close> opacities \<open>a\<close> and \<open>b\<close> in \<open>[0, 1]\<close>,
  \<^verbatim>\<open>combineOpacity(a, b)\<close> is a finite \<^verbatim>\<open>float\<close> in \<open>[0, 1]\<close> and is at least
  \<open>max(a, b) - 2\<^sup>-\<^sup>2\<^sup>3\<close>. The exact value \<open>1 - (1 - a)(1 - b)\<close> is at least \<open>max(a, b)\<close>, but
  each of the four \<^verbatim>\<open>float\<close> operations rounds, so the result can be below \<open>max(a, b)\<close>.
\<close>

theorem combineOpacity_unit_interval:
  assumes "0 \<le> a" "a \<le> 1" "0 \<le> b" "b \<le> 1"
  shows "\<exists>c. combineOpacity (Finite a) (Finite b) = Finite c \<and> 0 \<le> c \<and> c \<le> 1
           \<and> max a b - 1 / 2 ^ 23 \<le> c"
  using assms by (rule combineOpacity_bounds)

theorem combineOpacity_unit_interval_witness:
  "(0::rat) \<le> 1 / 2 \<and> (1::rat) / 2 \<le> 1 \<and> (0::rat) \<le> 1 / 4 \<and> (1::rat) / 4 \<le> 1
   \<and> (\<exists>c. combineOpacity (Finite (1 / 2)) (Finite (1 / 4)) = Finite c \<and> 0 \<le> c \<and> c \<le> 1
           \<and> max (1 / 2) (1 / 4) - 1 / 2 ^ 23 \<le> c)"
proof -
  have h: "(0::rat) \<le> 1 / 2" "(1::rat) / 2 \<le> 1" "(0::rat) \<le> 1 / 4" "(1::rat) / 4 \<le> 1"
    by simp_all
  from combineOpacity_unit_interval [OF h] h show ?thesis by blast
qed

text \<open>
  The claim as stated fails: \<open>2\<^sup>-\<^sup>1\<^sup>0\<^sup>0\<close> is a \<^verbatim>\<open>float\<close> in \<open>[0, 1]\<close>; \<open>1 - 2\<^sup>-\<^sup>1\<^sup>0\<^sup>0\<close> rounds
  to \<open>1\<close>, and the composite with \<open>0\<close> is \<open>0\<close>, below the first argument.
\<close>

theorem combineOpacity_below_max:
  "round32 (2 powi (- 100)) = 2 powi (- 100)
   \<and> (0::rat) \<le> 2 powi (- 100) \<and> (2::rat) powi (- 100) \<le> 1
   \<and> combineOpacity (Finite (2 powi (- 100))) (Finite 0) = Finite 0
   \<and> (0::rat) < max (2 powi (- 100)) 0"
proof -
  have "(2::rat) powi (- 100) \<le> 2 powi 0" by (intro power_int_increasing) simp_all
  then have "(2::rat) powi (- 100) \<le> 1" by simp
  moreover have "(0::rat) < max (2 powi (- 100)) 0" by (simp add: max_def)
  ultimately show ?thesis using tiny_is_float combineOpacity_tiny by simp
qed


subsection \<open>\<^verbatim>\<open>getSolid\<close>: what the passes change\<close>


lemma rewrites_refl: "rewrite_pass P s s"
  by (induction s) (auto intro: rewrite_pass.intros)

lemma rewrites_replace_all: "rewrite_pass {pat} s (replace_all pat rep s)"
proof (induction pat rep s rule: replace_all.induct)
  case (1 pat rep s)
  show ?case
  proof (cases "pat = []")
    case True
    then show ?thesis by (subst replace_all.simps) (simp add: rewrites_refl)
  next
    case ne: False
    show ?thesis
    proof (cases "prefix pat s")
      case True
      then obtain s' where s: "s = pat @ s'" by (auto simp: prefix_def)
      from 1(1) [OF ne True] have "rewrite_pass {pat} s' (replace_all pat rep s')" by (simp add: s)
      then have "rewrite_pass {pat} (pat @ s') (rep @ replace_all pat rep s')"
        by (intro rw_subst) simp_all
      then show ?thesis using ne True by (subst replace_all.simps) (simp add: s)
    next
      case False
      show ?thesis
      proof (cases s)
        case Nil
        then show ?thesis using ne False by (subst replace_all.simps) (simp add: rw_end)
      next
        case (Cons c cs)
        from 1(2) [OF ne False Cons] have "rewrite_pass {pat} cs (replace_all pat rep cs)" .
        then have "rewrite_pass {pat} (c # cs) (c # replace_all pat rep cs)" by (rule rw_keep)
        then show ?thesis using ne False Cons by (subst replace_all.simps) simp
      qed
    qed
  qed
qed

lemma rewrites_mono: "rewrite_pass P s t \<Longrightarrow> P \<subseteq> Q \<Longrightarrow> rewrite_pass Q s t"
  by (induction rule: rewrite_pass.induct) (auto intro: rewrite_pass.intros)

lemma hexdigit_isdigit: "d < 10 \<Longrightarrow> isdigit (hexdigit d)"
proof -
  assume "d < 10"
  then have "d \<in> {0, 1, 2, 3, 4, 5, 6, 7, 8, 9}" by simp arith
  then show ?thesis by (auto simp: hexdigit_def isdigit_def)
qed

lemma dec_digits_isdigit: "c \<in> set (dec_digits n) \<Longrightarrow> isdigit c"
proof (induction n arbitrary: c rule: dec_digits.induct)
  case (1 n)
  show ?case
  proof (cases "n < 10")
    case True
    with "1.prems" show ?thesis
      by (subst (asm) dec_digits.simps) (simp add: hexdigit_isdigit)
  next
    case False
    with "1.prems" have "c \<in> set (dec_digits (n div 10)) \<or> c = hexdigit (n mod 10)"
      by (subst (asm) dec_digits.simps) auto
    then show ?thesis using 1(1) [OF False] by (auto simp: hexdigit_isdigit)
  qed
qed

lemma to_string_float_chars:
  assumes "0 \<le> x"
  shows "to_string_float x \<noteq> []" and "c \<in> set (to_string_float x) \<Longrightarrow> is_opacity_char c"
proof -
  show "to_string_float x \<noteq> []" by (simp add: to_string_float_def Let_def)
  assume "c \<in> set (to_string_float x)"
  then show "is_opacity_char c"
    using assms unfolding to_string_float_def Let_def is_opacity_char_def
    by (auto dest: dec_digits_isdigit simp: isdigit_def)
qed

lemma old_attr_opacity_attrs:
  assumes "0 \<le> x"
  shows "old_attr x \<in> opacity_attrs"
proof -
  have "old_attr x = opacity_literal @ to_string_float x @ [CHR 0x22]"
    by (simp add: old_attr_def opacity_literal_def)
  then show ?thesis
    unfolding opacity_attrs_def using to_string_float_chars [OF assms] by blast
qed

lemma dec_value_nonneg:
  assumes "\<forall>c\<in>set ds. isdigit c"
  shows "0 \<le> dec_value ds"
proof -
  have "0 \<le> foldl (\<lambda>acc c. 10 * acc + (int (of_char c) - 48)) a ds" if "0 \<le> a" for a
    using assms that
  proof (induction ds arbitrary: a)
    case Nil
    then show ?case by simp
  next
    case (Cons c ds)
    from Cons.prems have "isdigit c" by simp
    then have "0 \<le> int (of_char c) - 48" by (auto simp: isdigit_def)
    with Cons.prems have "0 \<le> 10 * a + (int (of_char c) - 48)" by simp
    with Cons show ?case by simp
  qed
  then show ?thesis by (simp add: dec_value_def)
qed

lemma round32_nonneg: "0 \<le> x \<Longrightarrow> 0 \<le> round32 x"
  unfolding round32_def Let_def
  by (intro mult_nonneg_nonneg) (simp_all add: round_half_even_nonneg less_imp_le)

lemma stof_nonneg:
  assumes "stof s = Inr v"
  shows "0 \<le> v"
proof -
  define ip where "ip = takeWhile isdigit s"
  define fp where
    "fp = (case dropWhile isdigit s of c # t \<Rightarrow> if c = CHR ''.'' then takeWhile isdigit t else []
           | [] \<Rightarrow> [])"
  have "\<forall>c\<in>set ip. isdigit c" unfolding ip_def by (auto dest: set_takeWhileD)
  moreover have "\<forall>c\<in>set fp. isdigit c"
    unfolding fp_def by (auto dest: set_takeWhileD split: list.splits)
  ultimately have "0 \<le> dec_value (ip @ fp)" by (intro dec_value_nonneg) auto
  then have "0 \<le> rat_of_int (dec_value (ip @ fp)) / 10 ^ length fp" by simp
  then have "0 \<le> round32 (rat_of_int (dec_value (ip @ fp)) / 10 ^ length fp)"
    by (rule round32_nonneg)
  moreover have "v = round32 (rat_of_int (dec_value (ip @ fp)) / 10 ^ length fp)"
    using assms unfolding stof_def Let_def ip_def [symmetric] fp_def [symmetric]
    by (auto split: if_splits)
  ultimately show ?thesis by simp
qed

lemma set_set_insert: "set (set_insert x ys) = insert x (set ys)"
  by (induction ys) auto

lemma collect_opacities_nonneg:
  "collect_opacities temp acc = Inr ops \<Longrightarrow> \<forall>x\<in>set acc. 0 \<le> x \<Longrightarrow> \<forall>x\<in>set ops. 0 \<le> x"
proof (induction temp acc rule: collect_opacities.induct)
  case (1 temp acc)
  show ?case
  proof (cases "search_opacity temp")
    case None
    with "1.prems" show ?thesis by (subst (asm) collect_opacities.simps) simp
  next
    case (Some m)
    obtain cap sfx where m: "m = (cap, sfx)" by (cases m)
    from "1.prems"(1) Some m obtain v where
      v: "stof cap = Inr v" and r: "collect_opacities sfx (set_insert v acc) = Inr ops"
      by (subst (asm) collect_opacities.simps) (auto split: sum.splits)
    from stof_nonneg [OF v] "1.prems"(2) have "\<forall>x\<in>set (set_insert v acc). 0 \<le> x"
      by (simp add: set_set_insert)
    with 1(1) [OF Some m [symmetric] v r] show ?thesis .
  qed
qed

lemma flatten_loop_rewrites:
  "flatten_loop stroke opacities result = Inr flattened \<Longrightarrow> \<forall>x\<in>set opacities. 0 \<le> x \<Longrightarrow>
     (rewrite_pass opacity_attrs)\<^sup>*\<^sup>* result flattened"
proof (induction opacities arbitrary: result)
  case Nil
  then show ?case by simp
next
  case (Cons opacity lighter)
  from Cons.prems obtain hexColor where
    r: "flatten_loop stroke lighter
          (replace_all (old_attr opacity) (new_attr stroke hexColor) result) = Inr flattened"
    by (auto simp: Let_def split: sum.splits)
  from Cons.prems have pos: "0 \<le> opacity" and rest: "\<forall>x\<in>set lighter. 0 \<le> x" by simp_all
  have "rewrite_pass {old_attr opacity} result
          (replace_all (old_attr opacity) (new_attr stroke hexColor) result)"
    by (rule rewrites_replace_all)
  then have "rewrite_pass opacity_attrs result
          (replace_all (old_attr opacity) (new_attr stroke hexColor) result)"
    by (rule rewrites_mono) (simp add: old_attr_opacity_attrs [OF pos])
  with Cons.IH [OF r rest] show ?case by (rule converse_rtranclp_into_rtranclp [rotated])
qed

lemma getSolid_passes:
  assumes "getSolid s stroke = Inr t"
  shows "\<exists>s1 s2. rewrite_pass {fill_black} s s1 \<and> (rewrite_pass opacity_attrs)\<^sup>*\<^sup>* s1 s2
           \<and> rewrite_pass {stroke_none} s2 t"
proof -
  let ?s1 = "replace_all fill_black [] s"
  have p1: "rewrite_pass {fill_black} s ?s1" by (rule rewrites_replace_all)
  from assms obtain ops where ops: "collect_opacities ?s1 [] = Inr ops"
    by (auto simp: getSolid_def fill_black_def Let_def split: sum.splits)
  show ?thesis
  proof (cases "ops = []")
    case True
    with assms ops have "t = ?s1" by (simp add: getSolid_def fill_black_def)
    with p1 rewrites_refl [of "{stroke_none}" ?s1] show ?thesis by blast
  next
    case False
    with assms ops obtain s2 where
      f: "flatten_loop stroke (rev ops) ?s1 = Inr s2" and t: "t = replace_all stroke_none [] s2"
      by (auto simp: getSolid_def fill_black_def stroke_none_def split: sum.splits)
    have "\<forall>x\<in>set (rev ops). 0 \<le> x" using collect_opacities_nonneg [OF ops] by simp
    with f have "(rewrite_pass opacity_attrs)\<^sup>*\<^sup>* ?s1 s2" by (rule flatten_loop_rewrites)
    moreover have "rewrite_pass {stroke_none} s2 t" unfolding t by (rule rewrites_replace_all)
    ultimately show ?thesis using p1 by blast
  qed
qed

lemma replace_all_absent: "\<not> sublist pat s \<Longrightarrow> replace_all pat rep s = s"
proof (induction pat rep s rule: replace_all.induct)
  case (1 pat rep s)
  show ?case
  proof (cases "pat = []")
    case True
    then show ?thesis by (subst replace_all.simps) simp
  next
    case ne: False
    from "1.prems" have np: "\<not> prefix pat s" by (auto simp: prefix_def sublist_def)
    show ?thesis
    proof (cases s)
      case Nil
      then show ?thesis using ne np by (subst replace_all.simps) simp
    next
      case (Cons c cs)
      from "1.prems" have "\<not> sublist pat cs" by (simp add: Cons sublist_Cons_right)
      with 1(2) [OF ne np Cons] have "replace_all pat rep cs = cs" .
      then show ?thesis using ne np Cons by (subst replace_all.simps) simp
    qed
  qed
qed

lemma getSolid_early_return:
  assumes "search_opacity (replace_all fill_black [] s) = None"
  shows "getSolid s stroke = Inr (replace_all fill_black [] s)
       \<and> (sublist fill_black s \<or> getSolid s stroke = Inr s)"
proof -
  have "collect_opacities (replace_all fill_black [] s) [] = Inr []"
    using assms by (subst collect_opacities.simps) simp
  then have g: "getSolid s stroke = Inr (replace_all fill_black [] s)"
    by (simp add: getSolid_def fill_black_def)
  then show ?thesis using replace_all_absent [of fill_black s] by auto
qed


subsection \<open>\<^verbatim>\<open>getSolid\<close> on concrete texts\<close>


lemmas opacity_eval = match_opacity_here_def opacity_literal_def is_opacity_char_def isdigit_def

lemma round32_half: "round32 (1 / 2) = 1 / 2"
  by (rule round32_exact [where m = 1 and k = "- 1"]) (simp_all add: power_int_minus_divide)

lemma stof_0_5: "stof ''0.5'' = Inr (1 / 2)"
proof -
  have v: "rat_of_int (dec_value ''05'') / 10 ^ length ''5'' = 1 / 2"
    by (simp add: dec_value_def)
  show ?thesis
    unfolding stof_def Let_def
    by (simp add: isdigit_def v [simplified] round32_half dec_value_def power_int_minus_divide)
qed

lemma stof_0_500000: "stof ''0.500000'' = Inr (1 / 2)"
  unfolding stof_def Let_def
  by (simp add: isdigit_def round32_half dec_value_def power_int_minus_divide)

lemma to_float_half: "to_float (1 / 2) = Finite (1 / 2)"
  by (simp add: to_float_def round32_half)

lemma to_float_255_half: "to_float (255 / 2) = Finite (255 / 2)"
  by (rule to_float_exact [where m = 255 and k = "- 1"]) (simp_all add: power_int_minus_divide)

lemma floor_255_half: "\<lfloor>255 / 2 :: rat\<rfloor> = 127"
  by (rule floor_unique) simp_all

lemma blend_white_half: "blend_white 0 (Finite (1 / 2)) = Inr 127"
  by (simp add: blend_white_def to_float_half to_float_255_half int_of_float_def floor_255_half)

lemma rgbToHex_127: "rgbToHex 127 127 127 = ''#7f7f7f''"
  by (simp add: rgbToHex_def fmt_02x_def to_hex.simps hexdigit_def)

lemma rgbaToHex_half: "rgbaToHex 0 0 0 (Finite (1 / 2)) = Inr ''#7f7f7f''"
  by (simp add: rgbaToHex_def blend_white_half rgbToHex_127)

lemma to_string_half: "to_string_float (1 / 2) = ''0.500000''"
proof -
  have r: "round_half_even 500000 = 500000" by (simp add: round_half_even_def)
  have d: "dec_digits 0 = ''0''" "dec_digits 500000 = ''500000''"
    by (simp_all add: dec_digits.simps hexdigit_def)
  show ?thesis unfolding to_string_float_def Let_def by (simp add: r d)
qed

lemma old_attr_half: \<open>old_attr (1 / 2) = ''fill-opacity="0.500000"''\<close>
  by (simp add: old_attr_def to_string_half)

lemma collect_opacities_done:
  "search_opacity s = None \<Longrightarrow> collect_opacities s acc = Inr acc"
  by (subst collect_opacities.simps) simp

lemma collect_opacities_step:
  assumes "search_opacity s = Some (cap, sfx)" "stof cap = Inr v"
    "collect_opacities sfx (set_insert v acc) = Inr r"
  shows "collect_opacities s acc = Inr r"
  using assms by (subst collect_opacities.simps) simp

lemma flatten_loop_step:
  assumes "rgbaToHex 0 0 0 (foldl combineOpacity (Finite opacity) (map Finite lighter)) = Inr h"
    "replace_all (old_attr opacity) (new_attr stroke h) r = r1"
    "flatten_loop stroke lighter r1 = Inr r2"
  shows "flatten_loop stroke (opacity # lighter) r = Inr r2"
  using assms by simp

lemma flatten_loop_last:
  assumes "rgbaToHex 0 0 0 (Finite opacity) = Inr h"
    "replace_all (old_attr opacity) (new_attr stroke h) r = r1"
  shows "flatten_loop stroke [opacity] r = Inr r1"
  using assms by simp

lemma getSolid_steps:
  assumes "replace_all fill_black [] s = s1" "collect_opacities s1 [] = Inr ops" "ops \<noteq> []"
    "flatten_loop stroke (rev ops) s1 = Inr s2" "replace_all stroke_none [] s2 = t"
  shows "getSolid s stroke = Inr t"
  using assms by (simp add: getSolid_def fill_black_def stroke_none_def)

lemma getSolid_short_value:
  \<open>getSolid ''<path fill-opacity="0.5"/>'' False = Inr ''<path fill-opacity="0.5"/>''\<close>
proof (rule getSolid_steps)
  let ?s = \<open>''<path fill-opacity="0.5"/>''\<close>
  show "replace_all fill_black [] ?s = ?s"
    by (simp add: replace_all.simps fill_black_def)
  have s1: \<open>search_opacity ?s = Some (''0.5'', ''/>'')\<close>
    by (simp add: opacity_eval)
  have s2: \<open>search_opacity ''/>'' = None\<close>
    by (simp add: opacity_eval)
  show "collect_opacities ?s [] = Inr [1 / 2]"
    using s1 stof_0_5
  proof (rule collect_opacities_step)
    show \<open>collect_opacities ''/>'' (set_insert (1 / 2) []) = Inr [1 / 2]\<close>
      using s2 by (simp add: collect_opacities_done)
  qed
  show "[1 / 2 :: rat] \<noteq> []" by simp
  have "flatten_loop False [1 / 2] ?s = Inr ?s"
    using rgbaToHex_half
  proof (rule flatten_loop_last)
    show "replace_all (old_attr (1 / 2)) (new_attr False ''#7f7f7f'') ?s = ?s"
      by (simp add: old_attr_half new_attr_def replace_all.simps)
  qed
  then show "flatten_loop False (rev [1 / 2]) ?s = Inr ?s" by simp
  show "replace_all stroke_none [] ?s = ?s"
    by (simp add: replace_all.simps stroke_none_def)
qed

lemma getSolid_six_decimals:
  \<open>getSolid ''<path fill="black" fill-opacity="0.500000" stroke="none"/>'' False
     = Inr ''<path  fill="#7f7f7f"/>''\<close>
proof (rule getSolid_steps)
  let ?s1 = \<open>''<path  fill-opacity="0.500000" stroke="none"/>''\<close>
  let ?s2 = \<open>''<path  fill="#7f7f7f" stroke="none"/>''\<close>
  show \<open>replace_all fill_black [] ''<path fill="black" fill-opacity="0.500000" stroke="none"/>'' = ?s1\<close>
    by (simp add: replace_all.simps fill_black_def)
  have s1: \<open>search_opacity ?s1 = Some (''0.500000'', '' stroke="none"/>'')\<close>
    by (simp add: opacity_eval)
  have s2: \<open>search_opacity '' stroke="none"/>'' = None\<close>
    by (simp add: opacity_eval)
  show "collect_opacities ?s1 [] = Inr [1 / 2]"
    using s1 stof_0_500000
  proof (rule collect_opacities_step)
    show \<open>collect_opacities '' stroke="none"/>'' (set_insert (1 / 2) []) = Inr [1 / 2]\<close>
      using s2 by (simp add: collect_opacities_done)
  qed
  show "[1 / 2 :: rat] \<noteq> []" by simp
  have "flatten_loop False [1 / 2] ?s1 = Inr ?s2"
    using rgbaToHex_half
  proof (rule flatten_loop_last)
    show "replace_all (old_attr (1 / 2)) (new_attr False ''#7f7f7f'') ?s1 = ?s2"
      by (simp add: old_attr_half new_attr_def replace_all.simps)
  qed
  then show "flatten_loop False (rev [1 / 2]) ?s1 = Inr ?s2" by simp
  show \<open>replace_all stroke_none [] ?s2 = ''<path  fill="#7f7f7f"/>''\<close>
    by (simp add: replace_all.simps stroke_none_def)
qed

lemma getSolid_joined_attribute:
  \<open>getSolid ''<svg><text>fill-opacfill="black"ity="0.500000"</text></svg>'' False = Inr ''<svg><text>fill="#7f7f7f"</text></svg>''\<close>
proof (rule getSolid_steps)
  let ?s1 = \<open>''<svg><text>fill-opacity="0.500000"</text></svg>''\<close>
  let ?s2 = \<open>''<svg><text>fill="#7f7f7f"</text></svg>''\<close>
  show \<open>replace_all fill_black [] ''<svg><text>fill-opacfill="black"ity="0.500000"</text></svg>'' = ?s1\<close>
    by (simp add: replace_all.simps fill_black_def)
  have s1: \<open>search_opacity ?s1 = Some (''0.500000'', ''</text></svg>'')\<close>
    by (simp add: opacity_eval)
  have s2: \<open>search_opacity ''</text></svg>'' = None\<close>
    by (simp add: opacity_eval)
  show "collect_opacities ?s1 [] = Inr [1 / 2]"
    using s1 stof_0_500000
  proof (rule collect_opacities_step)
    show \<open>collect_opacities ''</text></svg>'' (set_insert (1 / 2) []) = Inr [1 / 2]\<close>
      using s2 by (simp add: collect_opacities_done)
  qed
  show "[1 / 2 :: rat] \<noteq> []" by simp
  have "flatten_loop False [1 / 2] ?s1 = Inr ?s2"
    using rgbaToHex_half
  proof (rule flatten_loop_last)
    show "replace_all (old_attr (1 / 2)) (new_attr False ''#7f7f7f'') ?s1 = ?s2"
      by (simp add: old_attr_half new_attr_def replace_all.simps)
  qed
  then show "flatten_loop False (rev [1 / 2]) ?s1 = Inr ?s2" by simp
  show "replace_all stroke_none [] ?s2 = ?s2"
    by (simp add: replace_all.simps stroke_none_def)
qed

lemma unmatched_joined_attribute:
  \<open>unmatched ''<svg><text>fill-opacfill="black"ity="0.500000"</text></svg>'' = ''<svg><text>fill-opacity="0.500000"</text></svg>''\<close>
  by (simp add: unmatched_def target_length_def fill_black_def stroke_none_def opacity_eval Let_def)

lemma not_subseq_joined:
  \<open>\<not> subseq ''<svg><text>fill-opacity="0.500000"</text></svg>'' ''<svg><text>fill="#7f7f7f"</text></svg>''\<close>
  by simp

lemma getSolid_fill_black_only:
  \<open>search_opacity ''<path fill="black"/>'' = None
     \<and> getSolid ''<path fill="black"/>'' False = Inr ''<path />''\<close>
proof -
  have r: \<open>replace_all fill_black [] ''<path fill="black"/>'' = ''<path />''\<close>
    by (simp add: replace_all.simps fill_black_def)
  have n: \<open>search_opacity ''<path />'' = None\<close> by (simp add: opacity_eval)
  have \<open>search_opacity ''<path fill="black"/>'' = None\<close> by (simp add: opacity_eval)
  moreover have \<open>getSolid ''<path fill="black"/>'' False = Inr ''<path />''\<close>
    using getSolid_early_return [of \<open>''<path fill="black"/>''\<close> False] n by (simp add: r)
  ultimately show ?thesis by simp
qed


text \<open>
  Claim C1 asks that \<^verbatim>\<open>getSolid\<close> replace every \<^verbatim>\<open>fill-opacity\<close> attribute by a solid fill
  and leave none in the text. The code searches for the attribute under the text
  \<^verbatim>\<open>std::to_string\<close> gives the parsed value, six decimals, not under the text it read:
  \<^verbatim>\<open>fill-opacity="0.5"\<close> is parsed to \<open>0.5\<close>, looked for as \<^verbatim>\<open>fill-opacity="0.500000"\<close>, not
  found, and left in the result.
\<close>

theorem getSolid_leaves_short_opacity:
  \<open>getSolid ''<path fill-opacity="0.5"/>'' False = Inr ''<path fill-opacity="0.5"/>''
   \<and> search_opacity ''<path fill-opacity="0.5"/>'' = Some (''0.5'', ''/>'')
   \<and> stof ''0.5'' = Inr (1 / 2)
   \<and> old_attr (1 / 2) = ''fill-opacity="0.500000"''\<close>
proof -
  have \<open>search_opacity ''<path fill-opacity="0.5"/>'' = Some (''0.5'', ''/>'')\<close>
    by (simp add: opacity_eval)
  then show ?thesis using getSolid_short_value stof_0_5 old_attr_half by simp
qed

text \<open>
  Claim C4, as amended: for every SVG text in which no \<^verbatim>\<open>fill-opacity\<close> attribute occurs
  once every literal \<^verbatim>\<open>fill="black"\<close> has been removed, \<^verbatim>\<open>getSolid\<close> returns the text with
  those literals removed and nothing else changed; a text that holds no \<^verbatim>\<open>fill="black"\<close>
  either is returned unchanged.
\<close>

theorem getSolid_without_opacity:
  assumes "search_opacity (replace_all fill_black [] s) = None"
  shows "getSolid s stroke = Inr (replace_all fill_black [] s)
       \<and> (sublist fill_black s \<or> getSolid s stroke = Inr s)"
  using assms by (rule getSolid_early_return)

theorem getSolid_without_opacity_witness:
  \<open>search_opacity (replace_all fill_black [] ''<path d="M0 0"/>'') = None
   \<and> replace_all fill_black [] ''<path d="M0 0"/>'' = ''<path d="M0 0"/>''
   \<and> getSolid ''<path d="M0 0"/>'' True = Inr (replace_all fill_black [] ''<path d="M0 0"/>'')
   \<and> (sublist fill_black ''<path d="M0 0"/>'' \<or> getSolid ''<path d="M0 0"/>'' True = Inr ''<path d="M0 0"/>'')\<close>
proof -
  have r: \<open>replace_all fill_black [] ''<path d="M0 0"/>'' = ''<path d="M0 0"/>''\<close>
    by (simp add: replace_all.simps fill_black_def)
  have n: \<open>search_opacity (replace_all fill_black [] ''<path d="M0 0"/>'') = None\<close>
    unfolding r by (simp add: opacity_eval)
  from getSolid_without_opacity [OF n, of True] r n show ?thesis by blast
qed

text \<open>
  The claim as stated fails: a text with \<^verbatim>\<open>fill="black"\<close> and no \<^verbatim>\<open>fill-opacity\<close> comes back
  without the \<^verbatim>\<open>fill="black"\<close>.
\<close>

theorem getSolid_strips_fill_black:
  \<open>search_opacity ''<path fill="black"/>'' = None
     \<and> getSolid ''<path fill="black"/>'' False = Inr ''<path />''\<close>
  by (rule getSolid_fill_black_only)

text \<open>
  Claim C10, as amended: \<^verbatim>\<open>getSolid\<close> changes the text only in passes that run one after
  the other, each on the text the pass before it returned: one pass over the occurrences
  of \<^verbatim>\<open>fill="black"\<close>, then any number of passes over the occurrences of
  \<^verbatim>\<open>fill-opacity="v"\<close> (\<open>v\<close> a non-empty run of digits and dots), then one pass over the
  occurrences of \<^verbatim>\<open> stroke="none"\<close>. A pass replaces some occurrences of its literals in
  the text it receives, possibly none, and copies every other character of that text in
  place and in order. An occurrence may have been formed by an earlier pass.
\<close>

theorem getSolid_frame:
  assumes "getSolid s stroke = Inr t"
  shows "\<exists>s1 s2. rewrite_pass {fill_black} s s1 \<and> (rewrite_pass opacity_attrs)\<^sup>*\<^sup>* s1 s2
           \<and> rewrite_pass {stroke_none} s2 t"
  using assms by (rule getSolid_passes)

theorem getSolid_frame_witness:
  \<open>getSolid ''<path fill="black" fill-opacity="0.500000" stroke="none"/>'' False
     = Inr ''<path  fill="#7f7f7f"/>''
   \<and> (\<exists>s1 s2. rewrite_pass {fill_black}
                 ''<path fill="black" fill-opacity="0.500000" stroke="none"/>'' s1
           \<and> (rewrite_pass opacity_attrs)\<^sup>*\<^sup>* s1 s2
           \<and> rewrite_pass {stroke_none} s2 ''<path  fill="#7f7f7f"/>'')\<close>
  using getSolid_frame [OF getSolid_six_decimals] getSolid_six_decimals by blast

text \<open>
  The claim as stated fails when the removal of \<^verbatim>\<open>fill="black"\<close> joins two pieces of text
  into a \<^verbatim>\<open>fill-opacity\<close> attribute: in the character data of the \<^verbatim>\<open>text\<close> element below,
  the characters around the removed literal lie in no occurrence in the input, and yet
  they are not all kept.
\<close>

theorem getSolid_joined_attribute_replaced:
  \<open>getSolid ''<svg><text>fill-opacfill="black"ity="0.500000"</text></svg>'' False
     = Inr ''<svg><text>fill="#7f7f7f"</text></svg>''
   \<and> unmatched ''<svg><text>fill-opacfill="black"ity="0.500000"</text></svg>''
     = ''<svg><text>fill-opacity="0.500000"</text></svg>''
   \<and> \<not> subseq ''<svg><text>fill-opacity="0.500000"</text></svg>''
         ''<svg><text>fill="#7f7f7f"</text></svg>''\<close>
  using getSolid_joined_attribute unmatched_joined_attribute not_subseq_joined by simp


end
